theory Spec2Isabelle
  imports Main
begin

section \<open>Data model\<close>

text \<open>
  \<^verbatim>\<open>interface MenuItem { id: string; label: string; children?: MenuItem[] }\<close>
  The optional field is an option: \<open>None\<close> is an absent (or \<^verbatim>\<open>undefined\<close>) children
  field, \<open>Some []\<close> an explicit empty array.
\<close>

datatype MenuItem =
  MenuItem (item_id: string) (label: string) (children: "MenuItem list option")

text \<open>The drop relation of the tree component: \<^verbatim>\<open>"before" | "after" | "inside"\<close>.\<close>

datatype DropPosition = Before | After | Inside

section \<open>Direct tree surgery (components/draggable-menu.tsx, tree version)\<close>

subsection \<open>removeItemFromTree\<close>

text \<open>
  The \<^verbatim>\<open>reduce\<close> callback of \<^verbatim>\<open>removeItemFromTree\<close>, as a loop over the siblings that
  threads the two pieces of state of one invocation: the variable \<^verbatim>\<open>removed\<close> and the
  accumulator \<^verbatim>\<open>acc\<close>. The recursive call on \<^verbatim>\<open>item.children\<close> starts a fresh
  invocation (\<open>None\<close>, \<open>[]\<close>).
\<close>

fun removeReduce ::
  "string \<Rightarrow> MenuItem list \<Rightarrow> MenuItem option \<Rightarrow> MenuItem list
    \<Rightarrow> MenuItem option \<times> MenuItem list" where
  "removeReduce tid [] removed acc = (removed, acc)"
| "removeReduce tid (MenuItem i l c # rest) removed acc =
     (if i = tid then removeReduce tid rest (Some (MenuItem i l c)) acc
      else
        (case c of
           Some (k # ks) \<Rightarrow>
             (case removeReduce tid (k # ks) None [] of
                (childRemoved, newChildren) \<Rightarrow>
                  removeReduce tid rest
                    (if childRemoved \<noteq> None then childRemoved else removed)
                    (acc @ [MenuItem i l (if length newChildren > 0 then Some newChildren else None)]))
         | _ \<Rightarrow> removeReduce tid rest removed (acc @ [MenuItem i l c])))"

definition removeItemFromTree :: "MenuItem list \<Rightarrow> string \<Rightarrow> MenuItem option \<times> MenuItem list" where
  "removeItemFromTree tree tid = removeReduce tid tree None []"

subsection \<open>insertItemInTree\<close>

text \<open>
  For \<^verbatim>\<open>"inside"\<close> the source maps over the siblings; otherwise it pushes onto
  \<^verbatim>\<open>result\<close> in a loop. The flag \<^verbatim>\<open>inserted\<close> (and \<^verbatim>\<open>wasInsertedInChildren\<close>, the
  comparison of serialised children that feeds it) is written and never read, so it
  has no part in the value returned.
\<close>

fun insertItemInTree ::
  "MenuItem list \<Rightarrow> MenuItem \<Rightarrow> string \<Rightarrow> DropPosition \<Rightarrow> MenuItem list" where
  "insertItemInTree [] item targetId position = []"
| "insertItemInTree (MenuItem i l c # rest) item targetId position =
     (if position = Inside then
        (if i = targetId then
           MenuItem i l (Some ((case c of None \<Rightarrow> [] | Some cs \<Rightarrow> cs) @ [item]))
         else
           (case c of
              Some cs \<Rightarrow> MenuItem i l (Some (insertItemInTree cs item targetId position))
            | None \<Rightarrow> MenuItem i l c))
        # insertItemInTree rest item targetId position
      else
        (if i = targetId then
           (if position = Before then [item, MenuItem i l c] else [MenuItem i l c, item])
         else
           (case c of
              Some (k # ks) \<Rightarrow> [MenuItem i l (Some (insertItemInTree (k # ks) item targetId position))]
            | _ \<Rightarrow> [MenuItem i l c]))
        @ insertItemInTree rest item targetId position)"

subsection \<open>isDescendant\<close>

fun checkSubtree :: "string \<Rightarrow> MenuItem list \<Rightarrow> bool" where
  "checkSubtree targetId [] = False"
| "checkSubtree targetId (MenuItem i l c # rest) =
     (if i = targetId then True
      else if (case c of Some cs \<Rightarrow> checkSubtree targetId cs | None \<Rightarrow> False) then True
      else checkSubtree targetId rest)"

fun findInChildren :: "string \<Rightarrow> string \<Rightarrow> MenuItem list \<Rightarrow> bool" where
  "findInChildren parentId targetId [] = False"
| "findInChildren parentId targetId (MenuItem i l c # rest) =
     (if i = parentId then
        (case c of Some cs \<Rightarrow> checkSubtree targetId cs | None \<Rightarrow> False)
      else if (case c of Some cs \<Rightarrow> findInChildren parentId targetId cs | None \<Rightarrow> False) then True
      else findInChildren parentId targetId rest)"

definition isDescendant :: "MenuItem list \<Rightarrow> string \<Rightarrow> string \<Rightarrow> bool" where
  "isDescendant tree parentId targetId = findInChildren parentId targetId tree"

section \<open>Flatten and rebuild (components/draggable-menu.tsx, flat version)\<close>

text \<open>
  \<^verbatim>\<open>interface FlatItem extends MenuItem { parentId: string | null }\<close>
  An entry \<^verbatim>\<open>{ ...item, parentId }\<close> copies the three fields of the node, its
  \<^verbatim>\<open>children\<close> included, and adds the reference to the parent; \<open>None\<close> is \<^verbatim>\<open>null\<close>.
\<close>

record FlatItem =
  fid :: string
  flabel :: string
  fchildren :: "MenuItem list option"
  parentId :: "string option"

text \<open>The position of the flat component's drop: \<^verbatim>\<open>"above" | "below"\<close> (or \<^verbatim>\<open>null\<close>).\<close>

datatype DragPosition = Above | Below

subsection \<open>flattenWithParent\<close>

fun flattenWithParent :: "MenuItem list \<Rightarrow> string option \<Rightarrow> FlatItem list" where
  "flattenWithParent [] parent = []"
| "flattenWithParent (MenuItem i l c # rest) parent =
     \<lparr>fid = i, flabel = l, fchildren = c, parentId = parent\<rparr>
     # (case c of Some cs \<Rightarrow> flattenWithParent cs (Some i) | None \<Rightarrow> [])
     @ flattenWithParent rest parent"

subsection \<open>rebuildTreeFromFlat\<close>

text \<open>
  The function builds mutable objects that refer to each other: \<^verbatim>\<open>itemMap\<close> holds one
  object per id, and \<^verbatim>\<open>parent.children.push(current)\<close> stores a reference to an
  object whose own \<^verbatim>\<open>children\<close> array may still grow. The store below keeps every such
  object under its key in \<^verbatim>\<open>itemMap\<close>. All objects are created before the first
  \<^verbatim>\<open>push\<close>, and every reference pushed is the result of an \<^verbatim>\<open>itemMap.get\<close>, so a
  reference to an object is represented exactly by its key.
\<close>

record Shell =
  sh_label :: string
  sh_children :: "string list"

type_synonym ItemMap = "string \<rightharpoonup> Shell"

text \<open>JavaScript's truthiness of a \<^verbatim>\<open>string | null\<close>: \<^verbatim>\<open>null\<close> and \<^verbatim>\<open>""\<close> are falsy.\<close>

definition truthy :: "string option \<Rightarrow> bool" where
  "truthy s = (case s of None \<Rightarrow> False | Some v \<Rightarrow> v \<noteq> [])"

text \<open>First loop: \<^verbatim>\<open>itemMap.set(item.id, { id, label, children: [] })\<close>.\<close>

definition createItem :: "FlatItem \<Rightarrow> ItemMap \<Rightarrow> ItemMap" where
  "createItem item m = m(fid item \<mapsto> \<lparr>sh_label = flabel item, sh_children = []\<rparr>)"

text \<open>Second loop: attach the entry's object to its parent's object, if both exist.\<close>

definition attachItem :: "FlatItem \<Rightarrow> ItemMap \<Rightarrow> ItemMap" where
  "attachItem item m =
     (if truthy (parentId item) then
        (case (m (the (parentId item)), m (fid item)) of
           (Some parent, Some current) \<Rightarrow>
             m(the (parentId item) \<mapsto> parent\<lparr>sh_children := sh_children parent @ [fid item]\<rparr>)
         | _ \<Rightarrow> m)
      else m)"

text \<open>
  The value returned: the references to the root objects, in list order, together with
  the store they point into.
\<close>

definition rebuildTreeFromFlat :: "FlatItem list \<Rightarrow> ItemMap \<times> string list" where
  "rebuildTreeFromFlat flatList =
     (let itemMap = fold attachItem flatList (fold createItem flatList Map.empty)
      in (itemMap, map fid (filter (\<lambda>item. parentId item = None) flatList)))"

text \<open>
  Reading the objects as a tree follows the references. The objects can form a cycle
  (an entry that names itself as its parent, under a duplicated id), and then they are
  no finite tree: \<open>readItem\<close> follows at most \<open>n\<close> references downwards and gives
  \<open>None\<close> when that is not enough. Every object created by \<^verbatim>\<open>rebuildTreeFromFlat\<close>
  has an array as \<^verbatim>\<open>children\<close>, never an absent field.
\<close>

fun readItem :: "nat \<Rightarrow> ItemMap \<Rightarrow> string \<Rightarrow> MenuItem option" where
  "readItem 0 m r = None"
| "readItem (Suc n) m r =
     (case m r of
        None \<Rightarrow> None
      | Some sh \<Rightarrow>
          (case those (map (readItem n m) (sh_children sh)) of
             None \<Rightarrow> None
           | Some cs \<Rightarrow> Some (MenuItem r (sh_label sh) (Some cs))))"

text \<open>
  A path without a repeated object has at most one object per entry of the list, so
  \<open>length flatList\<close> steps are enough whenever the objects form a tree (lemma
  \<open>rebuiltTree_fuel_enough\<close> below), and they always do when the ids of the list are
  distinct (lemma \<open>rebuiltTree_total\<close>).
\<close>

definition rebuiltTree :: "FlatItem list \<Rightarrow> MenuItem list option" where
  "rebuiltTree flatList =
     (case rebuildTreeFromFlat flatList of
        (itemMap, roots) \<Rightarrow> those (map (readItem (length flatList) itemMap) roots))"

subsection \<open>handleDrop\<close>

text \<open>\<^verbatim>\<open>findIndex\<close>, with \<open>None\<close> for the result \<^verbatim>\<open>-1\<close>.\<close>

fun findIndex :: "('a \<Rightarrow> bool) \<Rightarrow> 'a list \<Rightarrow> nat option" where
  "findIndex P [] = None"
| "findIndex P (x # xs) =
     (if P x then Some 0 else (case findIndex P xs of None \<Rightarrow> None | Some k \<Rightarrow> Some (Suc k)))"

text \<open>
  \<^verbatim>\<open>xs.splice(i, 1)\<close> and \<^verbatim>\<open>xs.splice(i, 0, x)\<close> for \<open>0 \<le> i\<close>: the list after the call.
  An index beyond the end is clamped to the length, as \<open>take\<close> and \<open>drop\<close> do.
\<close>

definition spliceOut :: "nat \<Rightarrow> 'a list \<Rightarrow> 'a list" where
  "spliceOut i xs = take i xs @ drop (Suc i) xs"

definition spliceIn :: "nat \<Rightarrow> 'a \<Rightarrow> 'a list \<Rightarrow> 'a list" where
  "spliceIn i x xs = take i xs @ [x] @ drop i xs"

text \<open>
  The body of \<^verbatim>\<open>handleDrop\<close> on the flat list: \<open>None\<close> when an index is \<^verbatim>\<open>-1\<close> and
  nothing is rebuilt. Inside the guard both indices are positions of the list, so
  \<open>flatList ! draggedIdx\<close> is the entry that \<^verbatim>\<open>splice\<close> returns, and
  \<^verbatim>\<open>insertIdx - 1\<close> is taken only of a positive number.
\<close>

definition reorderFlat ::
  "FlatItem list \<Rightarrow> string \<Rightarrow> string \<Rightarrow> DragPosition option \<Rightarrow> FlatItem list option" where
  "reorderFlat flatList draggedItem targetId dragPosition =
     (case (findIndex (\<lambda>x. fid x = draggedItem) flatList,
            findIndex (\<lambda>x. fid x = targetId) flatList) of
        (Some draggedIdx, Some targetIdx) \<Rightarrow>
          (let draggedEntry = flatList ! draggedIdx;
               newFlatList = spliceOut draggedIdx flatList;
               insertIdx = (if dragPosition = Some Above then targetIdx
                            else targetIdx + (if draggedIdx < targetIdx then 0 else 1))
           in Some (spliceIn (if insertIdx > draggedIdx then insertIdx - 1 else insertIdx)
                      draggedEntry newFlatList))
      | _ \<Rightarrow> None)"

text \<open>
  The handler, from the component's state (\<^verbatim>\<open>items\<close>, \<^verbatim>\<open>draggedItem\<close>,
  \<^verbatim>\<open>dragPosition\<close>) to the argument of \<^verbatim>\<open>onItemsChange\<close>: the outer \<open>None\<close> when
  it is not called, \<open>Some (rebuiltTree \<dots>)\<close> when it is called with the rebuilt objects.
\<close>

definition handleDrop ::
  "MenuItem list \<Rightarrow> string option \<Rightarrow> DragPosition option \<Rightarrow> string
    \<Rightarrow> MenuItem list option option" where
  "handleDrop items draggedItem dragPosition targetId =
     (if truthy draggedItem \<and> draggedItem \<noteq> Some targetId then
        map_option rebuiltTree
          (reorderFlat (flattenWithParent items None) (the draggedItem) targetId dragPosition)
      else None)"

subsection \<open>handlePromote and handleDemote\<close>

text \<open>
  \<^verbatim>\<open>flatList.find(...)\<close> returns the first matching entry itself, and the assignment
  to \<^verbatim>\<open>item.parentId\<close> changes that entry in the list: the entry at the first matching
  index.
\<close>

definition promoteFlat :: "FlatItem list \<Rightarrow> string \<Rightarrow> FlatItem list option" where
  "promoteFlat flatList i =
     (case findIndex (\<lambda>x. fid x = i) flatList of
        None \<Rightarrow> None
      | Some k \<Rightarrow>
          (let item = flatList ! k in
           if truthy (parentId item) then
             Some (flatList[k := item\<lparr>parentId :=
               (case find (\<lambda>x. Some (fid x) = parentId item) flatList of
                  None \<Rightarrow> None
                | Some p \<Rightarrow> (if truthy (parentId p) then parentId p else None))\<rparr>])
           else None))"

definition handlePromote :: "MenuItem list \<Rightarrow> string \<Rightarrow> MenuItem list option option" where
  "handlePromote items i =
     map_option rebuiltTree (promoteFlat (flattenWithParent items None) i)"

definition demoteFlat :: "FlatItem list \<Rightarrow> string \<Rightarrow> FlatItem list option" where
  "demoteFlat flatList i =
     (case findIndex (\<lambda>x. fid x = i) flatList of
        None \<Rightarrow> None
      | Some itemIdx \<Rightarrow>
          (if itemIdx > 0 then
             (let prevItem = flatList ! (itemIdx - 1);
                  item = flatList ! itemIdx;
                  flatList1 = flatList[itemIdx := item\<lparr>parentId := Some (fid prevItem)\<rparr>]
              in Some (if fchildren prevItem = None
                       then flatList1[itemIdx - 1 := prevItem\<lparr>fchildren := Some []\<rparr>]
                       else flatList1))
           else None))"

definition handleDemote :: "MenuItem list \<Rightarrow> string \<Rightarrow> MenuItem list option option" where
  "handleDemote items i =
     map_option rebuiltTree (demoteFlat (flattenWithParent items None) i)"

section \<open>The remove utility of the page (app/page.tsx)\<close>

fun removeItemById :: "MenuItem list \<Rightarrow> string \<Rightarrow> MenuItem list" where
  "removeItemById [] tid = []"
| "removeItemById (MenuItem i l c # rest) tid =
     (if i \<noteq> tid then
        [MenuItem i l (case c of Some cs \<Rightarrow> Some (removeItemById cs tid) | None \<Rightarrow> None)]
      else [])
     @ removeItemById rest tid"

section \<open>Reading a tree\<close>

text \<open>All nodes of a forest, in pre-order, and their identifiers.\<close>

fun nodes :: "MenuItem list \<Rightarrow> MenuItem list" where
  "nodes [] = []"
| "nodes (MenuItem i l c # rest) =
     MenuItem i l c # (case c of Some cs \<Rightarrow> nodes cs | None \<Rightarrow> []) @ nodes rest"

definition ids :: "MenuItem list \<Rightarrow> string list" where
  "ids tree = map item_id (nodes tree)"

definition kids :: "MenuItem \<Rightarrow> MenuItem list" where
  "kids n = (case children n of Some cs \<Rightarrow> cs | None \<Rightarrow> [])"

section \<open>Reading a flat list\<close>

text \<open>
  The ids of the entries that name \<open>k\<close> as their parent by a non-empty id, and the ids of
  the entries whose parent reference is \<^verbatim>\<open>null\<close>, both in list order.
\<close>

definition childIds :: "FlatItem list \<Rightarrow> string \<Rightarrow> string list" where
  "childIds flatList k = map fid (filter (\<lambda>x. parentId x = Some k \<and> k \<noteq> []) flatList)"

definition rootIds :: "FlatItem list \<Rightarrow> string list" where
  "rootIds flatList = map fid (filter (\<lambda>x. parentId x = None) flatList)"

text \<open>
  A forest with every absent children field written as an empty array: two forests
  have the same ids, labels, shape and sibling order exactly when their images are
  equal.
\<close>

fun shells :: "MenuItem list \<Rightarrow> MenuItem list" where
  "shells [] = []"
| "shells (MenuItem i l c # rest) =
     MenuItem i l (Some (case c of Some cs \<Rightarrow> shells cs | None \<Rightarrow> [])) # shells rest"

text \<open>
  An id that is \<open>j\<close> parent references below an entry without parent, counting only
  the references that \<^verbatim>\<open>rebuildTreeFromFlat\<close> follows (non-empty ones).
\<close>

fun rooted :: "FlatItem list \<Rightarrow> nat \<Rightarrow> string \<Rightarrow> bool" where
  "rooted fl 0 k = (\<exists>x \<in> set fl. fid x = k \<and> parentId x = None)"
| "rooted fl (Suc j) k =
     (\<exists>x \<in> set fl. fid x = k \<and> (\<exists>p. parentId x = Some p \<and> p \<noteq> [] \<and> rooted fl j p))"

text \<open>The number of levels of a forest.\<close>

fun depth :: "MenuItem list \<Rightarrow> nat" where
  "depth [] = 0"
| "depth (MenuItem i l c # rest) =
     max (Suc (case c of Some cs \<Rightarrow> depth cs | None \<Rightarrow> 0)) (depth rest)"

section \<open>Basic facts about forests\<close>

lemma nodes_append: "nodes (xs @ ys) = nodes xs @ nodes ys"
  by (induction xs rule: nodes.induct) auto

lemma ids_append: "ids (xs @ ys) = ids xs @ ids ys"
  by (simp add: ids_def nodes_append)

lemma ids_Nil: "ids [] = []"
  by (simp add: ids_def)

lemma ids_Cons:
  "ids (MenuItem i l c # rest) = i # (case c of Some cs \<Rightarrow> ids cs | None \<Rightarrow> []) @ ids rest"
  by (simp add: ids_def split: option.splits)

section \<open>removeItemFromTree without its accumulators\<close>

text \<open>
  One round of the loop changes the state in a way that does not depend on the state:
  it may overwrite \<^verbatim>\<open>removed\<close>, and it appends to \<^verbatim>\<open>acc\<close>.
\<close>

lemma removeReduce_step:
  "\<exists>e d. \<forall>r acc. removeReduce tid (x # xs) r acc =
      removeReduce tid xs (case e of None \<Rightarrow> r | Some y \<Rightarrow> Some y) (acc @ d)"
proof -
  obtain i l c where x: "x = MenuItem i l c" by (cases x)
  show ?thesis
  proof (cases "i = tid")
    case True
    then have "\<forall>r acc. removeReduce tid (x # xs) r acc =
      removeReduce tid xs (case Some x of None \<Rightarrow> r | Some y \<Rightarrow> Some y) (acc @ [])"
      by (simp add: x)
    then show ?thesis by blast
  next
    case False
    show ?thesis
    proof (cases "\<exists>k ks. c = Some (k # ks)")
      case True
      then obtain k ks where c: "c = Some (k # ks)" by blast
      obtain cr nc where R: "removeReduce tid (k # ks) None [] = (cr, nc)"
        by (cases "removeReduce tid (k # ks) None []")
      have "\<forall>r acc. removeReduce tid (x # xs) r acc =
        removeReduce tid xs (case cr of None \<Rightarrow> r | Some y \<Rightarrow> Some y)
          (acc @ [MenuItem i l (if length nc > 0 then Some nc else None)])"
        using False R by (cases cr) (simp_all add: x c)
      then show ?thesis by blast
    next
      case leaf: False
      then have "\<forall>r acc. removeReduce tid (x # xs) r acc =
        removeReduce tid xs (case None of None \<Rightarrow> r | Some y \<Rightarrow> Some y) (acc @ [x])"
        using False by (auto simp: x split: option.splits list.splits)
      then show ?thesis by blast
    qed
  qed
qed

lemma removeReduce_acc:
  "removeReduce tid xs r acc =
     ((case fst (removeReduce tid xs None []) of None \<Rightarrow> r | Some x \<Rightarrow> Some x),
      acc @ snd (removeReduce tid xs None []))"
proof (induction xs arbitrary: r acc)
  case Nil
  show ?case by simp
next
  case (Cons x xs)
  obtain e d where st: "\<And>r acc. removeReduce tid (x # xs) r acc =
      removeReduce tid xs (case e of None \<Rightarrow> r | Some y \<Rightarrow> Some y) (acc @ d)"
    using removeReduce_step[of tid x xs] by blast
  define R where "R = removeReduce tid xs None []"
  have a: "removeReduce tid (x # xs) r acc =
    ((case fst R of None \<Rightarrow> (case e of None \<Rightarrow> r | Some y \<Rightarrow> Some y) | Some z \<Rightarrow> Some z),
     (acc @ d) @ snd R)"
    unfolding R_def st by (rule Cons.IH)
  have b: "removeReduce tid (x # xs) None [] =
    ((case fst R of None \<Rightarrow> (case e of None \<Rightarrow> None | Some y \<Rightarrow> Some y) | Some z \<Rightarrow> Some z),
     ([] @ d) @ snd R)"
    unfolding R_def st by (rule Cons.IH)
  show ?case unfolding a b by (simp split: option.splits)
qed

lemma remove_Nil: "removeItemFromTree [] tid = (None, [])"
  by (simp add: removeItemFromTree_def)

lemma remove_snd_Cons:
  "snd (removeItemFromTree (MenuItem i l c # rest) tid) =
     (if i = tid then []
      else [MenuItem i l
              (case c of
                 Some (k # ks) \<Rightarrow>
                   (if snd (removeItemFromTree (k # ks) tid) \<noteq> []
                    then Some (snd (removeItemFromTree (k # ks) tid)) else None)
               | _ \<Rightarrow> c)])
     @ snd (removeItemFromTree rest tid)"
  unfolding removeItemFromTree_def
  apply (subst removeReduce.simps(2))
  apply (simp split: option.splits list.splits prod.splits del: removeReduce.simps(2))
  apply (intro conjI impI allI)
  apply (subst removeReduce_acc, simp del: removeReduce.simps(2))+
  done

lemma remove_fst_Cons:
  "fst (removeItemFromTree (MenuItem i l c # rest) tid) =
     (case fst (removeItemFromTree rest tid) of
        Some y \<Rightarrow> Some y
      | None \<Rightarrow>
          (if i = tid then Some (MenuItem i l c)
           else (case c of Some (k # ks) \<Rightarrow> fst (removeItemFromTree (k # ks) tid) | _ \<Rightarrow> None)))"
  unfolding removeItemFromTree_def
  apply (subst removeReduce.simps(2))
  apply (simp split: option.splits list.splits prod.splits del: removeReduce.simps(2))
  apply (intro conjI impI allI)
  apply (subst removeReduce_acc, simp del: removeReduce.simps(2) split: option.splits)+
  done

lemma remove_keeps_explicit_empty:
  "n \<in> set (nodes (snd (removeItemFromTree tree tid))) \<Longrightarrow> children n = Some []
     \<Longrightarrow> n \<in> set (nodes tree)"
proof (induction tree rule: nodes.induct)
  case 1
  then show ?case by (simp add: remove_Nil)
next
  case (2 i l c rest)
  then show ?case
    by (auto simp: remove_snd_Cons nodes_append remove_Nil
             split: if_splits option.splits list.splits)
qed

text \<open>
  What a caller gets back: the id is gone from the new tree, the removed node carries
  that id, so the removed node is no node of the new tree, and the ids of the new tree
  are still distinct.
\<close>

lemma remove_id_gone: "tid \<notin> set (ids (snd (removeItemFromTree tree tid)))"
proof (induction tree rule: nodes.induct)
  case 1
  show ?case by (simp add: remove_Nil ids_Nil)
next
  case (2 i l c rest)
  show ?case
  proof (cases "i = tid")
    case True
    then show ?thesis using "2.IH"(2) by (simp add: remove_snd_Cons)
  next
    case False
    show ?thesis
    proof (cases c)
      case None
      then show ?thesis using False "2.IH"(2)
        by (simp add: remove_snd_Cons ids_Cons)
    next
      case (Some cs)
      show ?thesis
      proof (cases cs)
        case Nil
        then show ?thesis using False Some "2.IH"(2)
          by (simp add: remove_snd_Cons ids_Cons ids_Nil)
      next
        case (Cons k ks)
        from "2.IH"(1)[OF Some] Cons
        have "tid \<notin> set (ids (snd (removeItemFromTree (k # ks) tid)))" by simp
        then show ?thesis using False Some Cons "2.IH"(2)
          by (simp add: remove_snd_Cons ids_Cons ids_Nil)
      qed
    qed
  qed
qed

lemma remove_fst_id: "fst (removeItemFromTree tree tid) = Some r \<Longrightarrow> item_id r = tid"
proof (induction tree rule: nodes.induct)
  case 1
  then show ?case by (simp add: remove_Nil)
next
  case (2 i l c rest)
  show ?case
  proof (cases "fst (removeItemFromTree rest tid)")
    case (Some y)
    with "2.prems" have "y = r" by (simp add: remove_fst_Cons)
    with "2.IH"(2) Some show ?thesis by simp
  next
    case None
    show ?thesis
    proof (cases "i = tid")
      case True
      with "2.prems" None show ?thesis by (auto simp: remove_fst_Cons)
    next
      case False
      with "2.prems" None obtain k ks where c: "c = Some (k # ks)"
        and r: "fst (removeItemFromTree (k # ks) tid) = Some r"
        by (auto simp: remove_fst_Cons split: option.splits list.splits)
      from "2.IH"(1)[OF c(1)] r show ?thesis by simp
    qed
  qed
qed

lemma removed_node_detached:
  "fst (removeItemFromTree tree tid) = Some r
     \<Longrightarrow> r \<notin> set (nodes (snd (removeItemFromTree tree tid)))"
proof
  assume a: "fst (removeItemFromTree tree tid) = Some r"
    and b: "r \<in> set (nodes (snd (removeItemFromTree tree tid)))"
  from b have "item_id r \<in> set (ids (snd (removeItemFromTree tree tid)))" by (simp add: ids_def)
  with remove_fst_id[OF a] remove_id_gone[of tid tree] show False by simp
qed

lemma remove_ids_subset: "set (ids (snd (removeItemFromTree tree tid))) \<subseteq> set (ids tree)"
proof (induction tree rule: nodes.induct)
  case 1
  show ?case by (simp add: remove_Nil ids_Nil)
next
  case (2 i l c rest)
  show ?case
  proof (cases c)
    case None
    then show ?thesis using "2.IH"(2)
      by (auto simp: remove_snd_Cons ids_Cons ids_append ids_Nil)
  next
    case (Some cs)
    show ?thesis
    proof (cases cs)
      case Nil
      then show ?thesis using Some "2.IH"(2)
        by (auto simp: remove_snd_Cons ids_Cons ids_append ids_Nil)
    next
      case (Cons k ks)
      from "2.IH"(1)[OF Some] Cons
      have "set (ids (snd (removeItemFromTree (k # ks) tid))) \<subseteq> set (ids cs)" by simp
      then show ?thesis using Some Cons "2.IH"(2)
        by (auto simp: remove_snd_Cons ids_Cons ids_append ids_Nil)
    qed
  qed
qed

lemma remove_ids_distinct:
  "distinct (ids tree) \<Longrightarrow> distinct (ids (snd (removeItemFromTree tree tid)))"
proof (induction tree rule: nodes.induct)
  case 1
  show ?case by (simp add: remove_Nil ids_Nil)
next
  case (2 i l c rest)
  from "2.prems" have dr: "distinct (ids rest)" and ir: "i \<notin> set (ids rest)"
    by (auto simp: ids_Cons)
  note sr = remove_ids_subset[of rest tid]
  have r: "distinct (ids (snd (removeItemFromTree rest tid)))" using "2.IH"(2)[OF dr] .
  show ?case
  proof (cases "i = tid")
    case True
    then show ?thesis using r by (simp add: remove_snd_Cons)
  next
    case False
    show ?thesis
    proof (cases c)
      case None
      then show ?thesis using False r ir sr
        by (auto simp: remove_snd_Cons ids_Cons ids_append ids_Nil)
    next
      case (Some cs)
      from "2.prems" Some have dc: "distinct (ids cs)" and ic: "i \<notin> set (ids cs)"
        and cr: "set (ids cs) \<inter> set (ids rest) = {}"
        by (auto simp: ids_Cons)
      show ?thesis
      proof (cases cs)
        case Nil
        then show ?thesis using False Some r ir sr
          by (auto simp: remove_snd_Cons ids_Cons ids_append ids_Nil)
      next
        case (Cons k ks)
        from "2.IH"(1)[OF Some dc] Cons
        have d: "distinct (ids (snd (removeItemFromTree (k # ks) tid)))" by simp
        from remove_ids_subset[of "k # ks" tid] Cons
        have s: "set (ids (snd (removeItemFromTree (k # ks) tid))) \<subseteq> set (ids cs)" by simp
        have e: "ids (snd (removeItemFromTree (MenuItem i l c # rest) tid))
                  = i # ids (snd (removeItemFromTree (k # ks) tid))
                      @ ids (snd (removeItemFromTree rest tid))"
          using False Some Cons
          by (simp add: remove_snd_Cons ids_Cons ids_append ids_Nil)
        show ?thesis unfolding e using d r s sr ic ir cr by auto
      qed
    qed
  qed
qed

section \<open>Facts about isDescendant\<close>

lemma checkSubtree_iff: "checkSubtree t xs \<longleftrightarrow> t \<in> set (ids xs)"
  by (induction xs rule: nodes.induct) (auto simp: ids_Cons ids_Nil split: option.splits)

lemma findInChildren_absent: "a \<notin> set (ids xs) \<Longrightarrow> \<not> findInChildren a t xs"
  by (induction xs rule: nodes.induct) (auto simp: ids_Cons ids_Nil split: option.splits)

lemma nodes_ids: "n \<in> set (nodes xs) \<Longrightarrow> item_id n \<in> set (ids xs)"
  by (simp add: ids_def)

lemma kids_simp: "kids (MenuItem i l c) = (case c of Some cs \<Rightarrow> cs | None \<Rightarrow> [])"
  by (simp add: kids_def)

lemma findInChildren_iff:
  "distinct (ids xs) \<Longrightarrow>
   findInChildren a t xs \<longleftrightarrow> (\<exists>n \<in> set (nodes xs). item_id n = a \<and> t \<in> set (ids (kids n)))"
proof (induction xs rule: nodes.induct)
  case 1
  show ?case by simp
next
  case (2 i l c rest)
  show ?case
  proof (cases "i = a")
    case True
    with "2.prems" have "\<forall>n \<in> set (case c of Some cs \<Rightarrow> nodes cs | None \<Rightarrow> []) \<union> set (nodes rest). item_id n \<noteq> a"
      by (auto simp: ids_Cons ids_def split: option.splits)
    with True show ?thesis
      by (auto simp: checkSubtree_iff kids_simp ids_Nil split: option.splits)
  next
    case False
    show ?thesis
    proof (cases c)
      case None
      from "2.prems" None have d2: "distinct (ids rest)" by (simp add: ids_Cons)
      have e1: "findInChildren a t (MenuItem i l c # rest) \<longleftrightarrow> findInChildren a t rest"
        using False None by simp
      have e2: "(\<exists>n \<in> set (nodes (MenuItem i l c # rest)). item_id n = a \<and> t \<in> set (ids (kids n)))
         \<longleftrightarrow> (\<exists>n \<in> set (nodes rest). item_id n = a \<and> t \<in> set (ids (kids n)))"
        using False None by auto
      show ?thesis unfolding e1 e2 by (rule "2.IH"(2)[OF d2])
    next
      case (Some cs)
      from "2.prems" Some have d1: "distinct (ids cs)" and d2: "distinct (ids rest)"
        and dj: "set (ids cs) \<inter> set (ids rest) = {}"
        by (auto simp: ids_Cons)
      note ih1 = "2.IH"(1)[OF Some d1] and ih2 = "2.IH"(2)[OF d2]
      have e1: "findInChildren a t (MenuItem i l c # rest)
              \<longleftrightarrow> findInChildren a t cs \<or> findInChildren a t rest"
        using False Some by simp
      have e2: "(\<exists>n \<in> set (nodes (MenuItem i l c # rest)). item_id n = a \<and> t \<in> set (ids (kids n)))
         \<longleftrightarrow> (\<exists>n \<in> set (nodes cs). item_id n = a \<and> t \<in> set (ids (kids n)))
           \<or> (\<exists>n \<in> set (nodes rest). item_id n = a \<and> t \<in> set (ids (kids n)))"
        using False Some by auto
      show ?thesis unfolding e1 e2 ih1 ih2 by (rule refl)
    qed
  qed
qed

lemma node_unique:
  "distinct (ids xs) \<Longrightarrow> n \<in> set (nodes xs) \<Longrightarrow> n' \<in> set (nodes xs)
     \<Longrightarrow> item_id n = item_id n' \<Longrightarrow> n = n'"
  unfolding ids_def by (auto simp: distinct_map dest: inj_onD)

lemma kids_in_nodes: "n \<in> set (nodes xs) \<Longrightarrow> set (nodes (kids n)) \<subseteq> set (nodes xs)"
  by (induction xs rule: nodes.induct) (auto simp: kids_simp split: option.splits)

lemma node_not_in_own_subtree:
  "distinct (ids xs) \<Longrightarrow> n \<in> set (nodes xs) \<Longrightarrow> item_id n \<notin> set (ids (kids n))"
proof (induction xs rule: nodes.induct)
  case 1
  then show ?case by simp
next
  case (2 i l c rest)
  have dr: "distinct (ids rest)" using "2.prems"(1) by (simp add: ids_Cons)
  show ?case
  proof (cases c)
    case None
    from "2.prems"(2) None consider "n = MenuItem i l None" | "n \<in> set (nodes rest)" by auto
    then show ?thesis
    proof cases
      case 1
      then show ?thesis by (simp add: kids_simp ids_Nil)
    next
      case 2
      then show ?thesis using "2.IH"(2)[OF dr] by simp
    qed
  next
    case (Some cs)
    have dc: "distinct (ids cs)" and ni: "i \<notin> set (ids cs)"
      using "2.prems"(1) Some by (simp_all add: ids_Cons)
    from "2.prems"(2) Some consider "n = MenuItem i l (Some cs)" | "n \<in> set (nodes cs)"
      | "n \<in> set (nodes rest)" by auto
    then show ?thesis
    proof cases
      case 1
      then show ?thesis using ni by (simp add: kids_simp)
    next
      case 2
      then show ?thesis using "2.IH"(1)[OF Some dc] by simp
    next
      case 3
      then show ?thesis using "2.IH"(2)[OF dr] by simp
    qed
  qed
qed


section \<open>Facts about removeItemById\<close>

lemma removeItemById_absent: "tid \<notin> set (ids xs) \<Longrightarrow> removeItemById xs tid = xs"
  by (induction xs rule: nodes.induct) (auto simp: ids_Cons ids_Nil split: option.splits)

lemma removeItemById_removes: "tid \<notin> set (ids (removeItemById xs tid))"
  by (induction xs rule: nodes.induct) (auto simp: ids_Cons ids_Nil ids_append split: option.splits)

lemma removeItemById_None_kept:
  "n \<in> set (nodes (removeItemById xs tid)) \<Longrightarrow> children n = None \<Longrightarrow> n \<in> set (nodes xs)"
  by (induction xs rule: nodes.induct) (auto simp: nodes_append split: option.splits if_splits)

lemma subtree_ids_subset: "n \<in> set (nodes xs) \<Longrightarrow> set (ids [n]) \<subseteq> set (ids xs)"
proof (induction xs rule: nodes.induct)
  case 1
  then show ?case by simp
next
  case (2 i l c rest)
  show ?case
  proof (cases c)
    case None
    with 2 show ?thesis by (auto simp: ids_Cons ids_Nil)
  next
    case (Some cs)
    with 2 show ?thesis by (auto simp: ids_Cons ids_Nil)
  qed
qed

lemma removeItemById_ids:
  "distinct (ids xs) \<Longrightarrow> n \<in> set (nodes xs) \<Longrightarrow> item_id n = tid
     \<Longrightarrow> set (ids (removeItemById xs tid)) = set (ids xs) - set (ids [n])"
proof (induction xs rule: nodes.induct)
  case 1
  then show ?case by simp
next
  case (2 i l c rest)
  define kidsl where "kidsl = (case c of Some cs \<Rightarrow> cs | None \<Rightarrow> [])"
  have idsC: "ids (MenuItem i l c # rest) = i # ids kidsl @ ids rest"
    by (simp add: ids_Cons kidsl_def ids_Nil split: option.splits)
  have nodesC: "set (nodes (MenuItem i l c # rest)) = {MenuItem i l c} \<union> set (nodes kidsl) \<union> set (nodes rest)"
    by (auto simp: kidsl_def split: option.splits)
  from "2.prems"(1) have dk: "distinct (ids kidsl)" and dr: "distinct (ids rest)"
    and ik: "i \<notin> set (ids kidsl)" and ir: "i \<notin> set (ids rest)"
    and kr: "set (ids kidsl) \<inter> set (ids rest) = {}"
    unfolding idsC by auto
  show ?case
  proof (cases "i = tid")
    case True
    have "n = MenuItem i l c"
      using node_unique[OF "2.prems"(1) "2.prems"(2), of "MenuItem i l c"] "2.prems"(3) True by simp
    moreover have "removeItemById (MenuItem i l c # rest) tid = rest"
      using True ir by (simp add: removeItemById_absent)
    moreover have "ids [MenuItem i l c] = i # ids kidsl"
      by (simp add: ids_Cons kidsl_def ids_Nil split: option.splits)
    ultimately show ?thesis unfolding idsC using ik ir kr by auto
  next
    case False
    have res: "ids (removeItemById (MenuItem i l c # rest) tid)
                 = i # ids (removeItemById kidsl tid) @ ids (removeItemById rest tid)"
      using False by (simp add: ids_Cons ids_append kidsl_def ids_Nil split: option.splits)
    from "2.prems"(2) False "2.prems"(3) consider "n \<in> set (nodes kidsl)" | "n \<in> set (nodes rest)"
      unfolding nodesC by auto
    then show ?thesis
    proof cases
      case 1
      then obtain cs where c: "c = Some cs" "kidsl = cs"
        by (cases c) (auto simp: kidsl_def)
      have ih: "set (ids (removeItemById kidsl tid)) = set (ids kidsl) - set (ids [n])"
        using "2.IH"(1)[OF c(1)] dk 1 "2.prems"(3) c(2) by simp
      have sub: "set (ids [n]) \<subseteq> set (ids kidsl)" by (rule subtree_ids_subset[OF 1])
      have "tid \<in> set (ids kidsl)" using 1 "2.prems"(3) by (auto simp: ids_def)
      then have "tid \<notin> set (ids rest)" using kr by auto
      then have "removeItemById rest tid = rest" by (rule removeItemById_absent)
      then show ?thesis unfolding res idsC using ih sub ik kr by auto
    next
      case 2
      have ih: "set (ids (removeItemById rest tid)) = set (ids rest) - set (ids [n])"
        using "2.IH"(2)[OF dr 2 "2.prems"(3)] .
      have sub: "set (ids [n]) \<subseteq> set (ids rest)" by (rule subtree_ids_subset[OF 2])
      have "tid \<in> set (ids rest)" using 2 "2.prems"(3) by (auto simp: ids_def)
      then have "tid \<notin> set (ids kidsl)" using kr by auto
      then have "removeItemById kidsl tid = kidsl" by (rule removeItemById_absent)
      then show ?thesis unfolding res idsC using ih sub ir kr by auto
    qed
  qed
qed

lemma removeItemById_only_child:
  "distinct (ids xs) \<Longrightarrow> MenuItem p l (Some [k]) \<in> set (nodes xs) \<Longrightarrow> item_id k = tid
     \<Longrightarrow> MenuItem p l (Some []) \<in> set (nodes (removeItemById xs tid))"
proof (induction xs rule: nodes.induct)
  case 1
  then show ?case by simp
next
  case (2 i l' c rest)
  define kidsl where "kidsl = (case c of Some cs \<Rightarrow> cs | None \<Rightarrow> [])"
  have idsC: "ids (MenuItem i l' c # rest) = i # ids kidsl @ ids rest"
    by (simp add: ids_Cons kidsl_def ids_Nil split: option.splits)
  have nodesC: "set (nodes (MenuItem i l' c # rest)) = {MenuItem i l' c} \<union> set (nodes kidsl) \<union> set (nodes rest)"
    by (auto simp: kidsl_def split: option.splits)
  from "2.prems"(1) have dk: "distinct (ids kidsl)" and dr: "distinct (ids rest)"
    and ik: "i \<notin> set (ids kidsl)"
    unfolding idsC by auto
  obtain kl kc where k: "k = MenuItem tid kl kc" using "2.prems"(3) by (cases k) auto
  from "2.prems"(2) consider "MenuItem p l (Some [k]) = MenuItem i l' c"
    | "MenuItem p l (Some [k]) \<in> set (nodes kidsl)" | "MenuItem p l (Some [k]) \<in> set (nodes rest)"
    unfolding nodesC by auto
  then show ?case
  proof cases
    case 1
    then have e: "i = p" "l' = l" "c = Some [k]" by auto
    have "tid \<in> set (ids kidsl)" by (simp add: kidsl_def e k ids_Cons)
    then have "i \<noteq> tid" using ik by auto
    then show ?thesis by (simp add: e k)
  next
    case 2
    then obtain cs where c: "c = Some cs" "kidsl = cs"
      by (cases c) (auto simp: kidsl_def)
    have "set (ids [MenuItem p l (Some [k])]) \<subseteq> set (ids kidsl)"
      by (rule subtree_ids_subset[OF 2])
    then have "tid \<in> set (ids kidsl)" by (simp add: k ids_Cons)
    then have ne: "i \<noteq> tid" using ik by auto
    have "MenuItem p l (Some []) \<in> set (nodes (removeItemById cs tid))"
      using "2.IH"(1)[OF c(1)] dk 2 "2.prems"(3) c(2) by simp
    then show ?thesis using ne c by (simp add: nodes_append)
  next
    case 3
    have "MenuItem p l (Some []) \<in> set (nodes (removeItemById rest tid))"
      using "2.IH"(2)[OF dr 3 "2.prems"(3)] .
    then show ?thesis by (simp add: nodes_append)
  qed
qed

lemma removeItemById_image:
  "n \<in> set (nodes (removeItemById xs tid)) \<Longrightarrow>
   \<exists>n0 \<in> set (nodes xs). item_id n0 \<noteq> tid
      \<and> n = MenuItem (item_id n0) (label n0)
              (map_option (\<lambda>cs. removeItemById cs tid) (children n0))"
proof (induction xs rule: nodes.induct)
  case 1
  then show ?case by simp
next
  case (2 i l c rest)
  let ?P = "\<lambda>ys. \<exists>n0 \<in> set (nodes ys). item_id n0 \<noteq> tid
      \<and> n = MenuItem (item_id n0) (label n0)
              (map_option (\<lambda>cs. removeItemById cs tid) (children n0))"
  have up_rest: "?P rest \<Longrightarrow> ?P (MenuItem i l c # rest)" by auto
  have up_kids: "\<And>cs. c = Some cs \<Longrightarrow> ?P cs \<Longrightarrow> ?P (MenuItem i l c # rest)" by auto
  show ?case
  proof (cases "i = tid")
    case True
    with "2.prems" have "n \<in> set (nodes (removeItemById rest tid))" by simp
    from up_rest[OF "2.IH"(2)[OF this]] show ?thesis .
  next
    case False
    show ?thesis
    proof (cases c)
      case None
      with False "2.prems" consider "n = MenuItem i l None" | "n \<in> set (nodes (removeItemById rest tid))"
        by (auto simp: nodes_append)
      then show ?thesis
      proof cases
        case 1
        then show ?thesis using False None by auto
      next
        case 2
        from up_rest[OF "2.IH"(2)[OF this]] show ?thesis .
      qed
    next
      case (Some cs)
      with False "2.prems" consider "n = MenuItem i l (Some (removeItemById cs tid))"
        | "n \<in> set (nodes (removeItemById cs tid))"
        | "n \<in> set (nodes (removeItemById rest tid))"
        by (auto simp: nodes_append)
      then show ?thesis
      proof cases
        case 1
        then show ?thesis using False Some by auto
      next
        case 2
        from up_kids[OF Some "2.IH"(1)[OF Some 2]] show ?thesis .
      next
        case 3
        from up_rest[OF "2.IH"(2)[OF this]] show ?thesis .
      qed
    qed
  qed
qed

section \<open>Facts about insertItemInTree\<close>

lemma insert_other:
  "i \<noteq> t \<Longrightarrow> insertItemInTree (MenuItem i l c # rest) item t pos =
     MenuItem i l (map_option (\<lambda>cs. insertItemInTree cs item t pos) c)
     # insertItemInTree rest item t pos"
  by (cases pos) (auto split: option.splits list.splits)

lemma insert_target:
  "insertItemInTree (MenuItem t l c # rest) item t pos =
     (case pos of
        Inside \<Rightarrow> [MenuItem t l (Some ((case c of None \<Rightarrow> [] | Some cs \<Rightarrow> cs) @ [item]))]
      | Before \<Rightarrow> [item, MenuItem t l c]
      | After \<Rightarrow> [MenuItem t l c, item])
     @ insertItemInTree rest item t pos"
  by (cases pos) auto

lemma insert_absent:
  "t \<notin> set (ids xs) \<Longrightarrow> insertItemInTree xs item t pos = xs"
proof (induction xs rule: nodes.induct)
  case 1
  show ?case by simp
next
  case (2 i l c rest)
  from "2.prems" have ne: "i \<noteq> t" and r: "t \<notin> set (ids rest)"
    and k: "\<And>cs. c = Some cs \<Longrightarrow> t \<notin> set (ids cs)"
    by (auto simp: ids_Cons)
  have "map_option (\<lambda>cs. insertItemInTree cs item t pos) c = c"
    using "2.IH"(1) k by (cases c) auto
  then show ?case using ne "2.IH"(2)[OF r] by (simp add: insert_other del: insertItemInTree.simps)
qed

lemma node_size_le: "m \<in> set (nodes xs) \<Longrightarrow> size m \<le> size_list size xs"
proof (induction xs rule: nodes.induct)
  case 1
  then show ?case by simp
next
  case (2 i l c rest)
  show ?case
  proof (cases c)
    case None
    with 2 show ?thesis by auto
  next
    case (Some cs)
    with 2 show ?thesis by auto
  qed
qed

lemma not_in_own_nodes: "MenuItem i l (Some ys) \<notin> set (nodes ys)"
proof
  assume "MenuItem i l (Some ys) \<in> set (nodes ys)"
  from node_size_le[OF this] show False by simp
qed

lemma count_self: "count_list (nodes [node]) node = 1"
proof (cases node)
  case (MenuItem i l c)
  show ?thesis
  proof (cases c)
    case None
    with MenuItem show ?thesis by simp
  next
    case (Some ys)
    have "node \<notin> set (nodes ys)" unfolding MenuItem Some by (rule not_in_own_nodes)
    then show ?thesis unfolding MenuItem Some by (simp add: count_list_0_iff)
  qed
qed

lemma nodes_Cons_append: "nodes (x # ys) = nodes [x] @ nodes ys"
  using nodes_append[of "[x]" ys] by simp

lemma self_in_nodes: "n \<in> set (nodes [n])"
  by (cases n) simp

lemma insert_one_copy:
  "distinct (ids xs) \<Longrightarrow> node \<notin> set (nodes xs) \<Longrightarrow> t \<in> set (ids xs)
     \<Longrightarrow> count_list (nodes (insertItemInTree xs node t pos)) node = 1"
proof (induction xs rule: nodes.induct)
  case 1
  then show ?case by (simp add: ids_Nil)
next
  case (2 i l c rest)
  define kidsl where "kidsl = (case c of Some cs \<Rightarrow> cs | None \<Rightarrow> [])"
  have idsC: "ids (MenuItem i l c # rest) = i # ids kidsl @ ids rest"
    by (simp add: ids_Cons kidsl_def ids_Nil split: option.splits)
  have nodesC: "set (nodes (MenuItem i l c # rest)) = {MenuItem i l c} \<union> set (nodes kidsl) \<union> set (nodes rest)"
    by (auto simp: kidsl_def split: option.splits)
  from "2.prems"(1) have dk: "distinct (ids kidsl)" and dr: "distinct (ids rest)"
    and ik: "i \<notin> set (ids kidsl)" and ir: "i \<notin> set (ids rest)"
    and kr: "set (ids kidsl) \<inter> set (ids rest) = {}"
    unfolding idsC by auto
  from "2.prems"(2) have nh: "node \<noteq> MenuItem i l c" and nk: "node \<notin> set (nodes kidsl)"
    and nr: "node \<notin> set (nodes rest)"
    unfolding nodesC by auto
  have c0: "count_list (nodes [MenuItem i l c]) node = 0"
    using nh nk by (cases c) (auto simp: kidsl_def count_list_0_iff)
  have r0: "count_list (nodes rest) node = 0" using nr by (simp add: count_list_0_iff)
  have k0: "count_list (nodes kidsl) node = 0" using nk by (simp add: count_list_0_iff)
  show ?case
  proof (cases "i = t")
    case True
    have "t \<notin> set (ids rest)" using ir True by simp
    then have rest: "\<And>q. insertItemInTree rest node t q = rest" by (rule insert_absent)
    have ne: "MenuItem t l (Some (kidsl @ [node])) \<noteq> node"
    proof
      assume "MenuItem t l (Some (kidsl @ [node])) = node"
      moreover have "node \<in> set (nodes (kidsl @ [node]))"
        using self_in_nodes[of node] by (simp add: nodes_append del: nodes.simps)
      ultimately have "MenuItem t l (Some (kidsl @ [node])) \<in> set (nodes (kidsl @ [node]))"
        by simp
      then show False using not_in_own_nodes by blast
    qed
    show ?thesis
    proof (cases pos)
      case Before
      have "nodes ([node, MenuItem t l c] @ rest) = nodes [node] @ nodes [MenuItem t l c] @ nodes rest"
        by (simp only: nodes_append nodes_Cons_append[of node "[MenuItem t l c]"] append_assoc)
      then show ?thesis unfolding True insert_target Before rest
        using c0 r0 count_self[of node] True by (simp del: nodes.simps)
    next
      case After
      have "nodes ([MenuItem t l c, node] @ rest) = nodes [MenuItem t l c] @ nodes [node] @ nodes rest"
        by (simp only: nodes_append nodes_Cons_append[of "MenuItem t l c" "[node]"] append_assoc)
      then show ?thesis unfolding True insert_target After rest
        using c0 r0 count_self[of node] True by (simp del: nodes.simps)
    next
      case Inside
      have "nodes [MenuItem t l (Some (kidsl @ [node]))]
              = MenuItem t l (Some (kidsl @ [node])) # nodes kidsl @ nodes [node]"
        by (simp add: nodes_append del: nodes.simps(2)
              add: nodes.simps(2)[of t l "Some (kidsl @ [node])" "[]"])
      then have "count_list (nodes [MenuItem t l (Some (kidsl @ [node]))]) node = 1"
        using ne k0 count_self[of node] by (simp del: nodes.simps)
      moreover have "nodes ([MenuItem t l (Some (kidsl @ [node]))] @ rest)
              = nodes [MenuItem t l (Some (kidsl @ [node]))] @ nodes rest"
        by (rule nodes_append)
      ultimately show ?thesis unfolding True insert_target Inside rest
        using r0 by (simp add: kidsl_def del: nodes.simps)
    qed
  next
    case False
    note step = insert_other[OF False, of l c rest node pos]
    from "2.prems"(3) False consider "t \<in> set (ids kidsl)" | "t \<in> set (ids rest)"
      unfolding idsC by auto
    then show ?thesis
    proof cases
      case 1
      then obtain cs where c: "c = Some cs" "kidsl = cs"
        by (cases c) (auto simp: kidsl_def ids_Nil)
      have "t \<notin> set (ids rest)" using 1 kr by auto
      then have rest: "\<And>q. insertItemInTree rest node t q = rest" by (rule insert_absent)
      have ih: "count_list (nodes (insertItemInTree cs node t pos)) node = 1"
        using "2.IH"(1)[OF c(1)] dk nk 1 c(2) by simp
      then have "node \<in> set (nodes (insertItemInTree cs node t pos))"
        by (metis count_list_0_iff zero_neq_one)
      then have ne: "MenuItem i l (Some (insertItemInTree cs node t pos)) \<noteq> node"
        using not_in_own_nodes[of i l "insertItemInTree cs node t pos"] by auto
      have one: "count_list (nodes [MenuItem i l (Some (insertItemInTree cs node t pos))]) node = 1"
        using ne ih by simp
      have eq: "insertItemInTree (MenuItem i l c # rest) node t pos
                  = MenuItem i l (Some (insertItemInTree cs node t pos)) # rest"
        using step rest c(1) by simp
      show ?thesis unfolding eq
        by (subst nodes_Cons_append) (simp add: r0 one del: nodes.simps)
    next
      case 2
      have "t \<notin> set (ids kidsl)" using 2 kr by auto
      then have "\<And>cs. c = Some cs \<Longrightarrow> insertItemInTree cs node t pos = cs"
        by (auto simp: kidsl_def intro: insert_absent)
      then have same: "map_option (\<lambda>cs. insertItemInTree cs node t pos) c = c"
        by (cases c) auto
      have ih: "count_list (nodes (insertItemInTree rest node t pos)) node = 1"
        using "2.IH"(2)[OF dr nr 2] .
      have eq: "insertItemInTree (MenuItem i l c # rest) node t pos
                  = MenuItem i l c # insertItemInTree rest node t pos"
        using step same by simp
      show ?thesis unfolding eq
        by (subst nodes_Cons_append) (simp add: c0 ih del: nodes.simps)
    qed
  qed
qed

section \<open>Facts about the flat list operations\<close>

lemma findIndex_Some:
  "findIndex P xs = Some k \<Longrightarrow> k < length xs \<and> P (xs ! k) \<and> (\<forall>j<k. \<not> P (xs ! j))"
proof (induction xs arbitrary: k)
  case Nil
  then show ?case by simp
next
  case (Cons x xs)
  show ?case
  proof (cases "P x")
    case True
    with Cons.prems show ?thesis by simp
  next
    case False
    with Cons.prems obtain k' where k': "findIndex P xs = Some k'" "k = Suc k'"
      by (auto split: option.splits)
    from Cons.IH[OF k'(1)] False k'(2) show ?thesis
      by (auto simp: nth_Cons split: nat.splits)
  qed
qed

lemma findIndex_None: "findIndex P xs = None \<longleftrightarrow> (\<forall>x \<in> set xs. \<not> P x)"
  by (induction xs) (auto split: option.splits)

lemma findIndex_distinct:
  "distinct (map f xs) \<Longrightarrow> k < length xs \<Longrightarrow> findIndex (\<lambda>x. f x = f (xs ! k)) xs = Some k"
proof (induction xs arbitrary: k)
  case Nil
  then show ?case by simp
next
  case (Cons x xs)
  show ?case
  proof (cases k)
    case 0
    then show ?thesis by simp
  next
    case (Suc k')
    with Cons.prems have "k' < length xs" "f (xs ! k') \<in> f ` set xs" by auto
    with Cons.prems Suc have "f x \<noteq> f (xs ! k')" by auto
    with Cons.IH[of k'] Cons.prems Suc show ?thesis by simp
  qed
qed

lemma length_spliceOut: "d < length xs \<Longrightarrow> length (spliceOut d xs) = length xs - 1"
  by (simp add: spliceOut_def)

lemma nth_spliceOut:
  "d < length xs \<Longrightarrow> j < length xs - 1 \<Longrightarrow>
   spliceOut d xs ! j = (if j < d then xs ! j else xs ! Suc j)"
  by (auto simp: spliceOut_def nth_append min_def)

lemma length_spliceIn: "length (spliceIn j x ys) = Suc (length ys)"
  by (simp add: spliceIn_def)

lemma nth_spliceIn:
  "j \<le> length ys \<Longrightarrow> k \<le> length ys \<Longrightarrow>
   spliceIn j x ys ! k = (if k < j then ys ! k else if k = j then x else ys ! (k - 1))"
proof -
  assume a: "j \<le> length ys" "k \<le> length ys"
  have "k > j \<Longrightarrow> (x # drop j ys) ! (k - j) = ys ! (k - 1)"
  proof -
    assume "k > j"
    then obtain m where m: "k - j = Suc m" "j + m = k - 1" by (cases "k - j") auto
    then show ?thesis using a by simp
  qed
  then show ?thesis using a
    by (cases "k < j"; cases "k = j") (simp_all add: spliceIn_def nth_append min_def)
qed

lemma reorderFlat_positions:
  assumes d: "findIndex (\<lambda>x. fid x = dragged) fl = Some d"
      and t: "findIndex (\<lambda>x. fid x = target) fl = Some t"
      and ne: "d \<noteq> t"
  shows "\<exists>r j. reorderFlat fl dragged target pos = Some r \<and> length r = length fl
            \<and> Suc j < length r
            \<and> (if pos = Some Above \<or> d < t
                then r ! j = fl ! d \<and> r ! Suc j = fl ! t
                else r ! j = fl ! t \<and> r ! Suc j = fl ! d)"
proof -
  from findIndex_Some[OF d] have dl: "d < length fl" by simp
  from findIndex_Some[OF t] have tl: "t < length fl" by simp
  define so where "so = spliceOut d fl"
  have lso: "length so = length fl - 1" unfolding so_def by (rule length_spliceOut[OF dl])
  have nso: "\<And>j. j < length fl - 1 \<Longrightarrow> so ! j = (if j < d then fl ! j else fl ! Suc j)"
    unfolding so_def by (rule nth_spliceOut[OF dl])
  show ?thesis
  proof (cases "d < t")
    case True
    define r where "r = spliceIn (t - 1) (fl ! d) so"
    have R: "reorderFlat fl dragged target pos = Some r"
      using True d t by (auto simp: reorderFlat_def r_def so_def Let_def)
    have len: "length r = length fl" using dl by (simp add: r_def length_spliceIn lso)
    have b1: "t - 1 \<le> length so" "t \<le> length so" using tl True by (simp_all add: lso)
    have "r ! (t - 1) = fl ! d" unfolding r_def using nth_spliceIn[OF b1(1) b1(1)] by simp
    moreover have "r ! t = so ! (t - 1)" unfolding r_def using nth_spliceIn[OF b1(1) b1(2)] True by simp
    moreover have "so ! (t - 1) = fl ! t" using nso[of "t - 1"] True tl by simp
    moreover have "Suc (t - 1) = t" using True by simp
    ultimately show ?thesis using R len True tl
      by (intro exI[of _ r] exI[of _ "t - 1"]) simp
  next
    case False
    with ne have gt: "t < d" by simp
    show ?thesis
    proof (cases "pos = Some Above")
      case True
      define r where "r = spliceIn t (fl ! d) so"
      have R: "reorderFlat fl dragged target pos = Some r"
        using True gt d t by (auto simp: reorderFlat_def r_def so_def Let_def)
      have len: "length r = length fl" using dl by (simp add: r_def length_spliceIn lso)
      have b1: "t \<le> length so" "Suc t \<le> length so" using dl gt by (simp_all add: lso)
      have "r ! t = fl ! d" unfolding r_def using nth_spliceIn[OF b1(1) b1(1)] by simp
      moreover have "r ! Suc t = so ! t" unfolding r_def using nth_spliceIn[OF b1(1) b1(2)] by simp
      moreover have "so ! t = fl ! t" using nso[of t] gt dl by simp
      ultimately show ?thesis using R len True gt dl
        by (intro exI[of _ r] exI[of _ t]) simp
    next
      case nA: False
      define r where "r = spliceIn (Suc t) (fl ! d) so"
      have R: "reorderFlat fl dragged target pos = Some r"
        using nA gt d t by (auto simp: reorderFlat_def r_def so_def Let_def)
      have len: "length r = length fl" using dl by (simp add: r_def length_spliceIn lso)
      have b1: "t \<le> length so" "Suc t \<le> length so" using dl gt by (simp_all add: lso)
      have "r ! Suc t = fl ! d" unfolding r_def using nth_spliceIn[OF b1(2) b1(2)] by simp
      moreover have "r ! t = so ! t" unfolding r_def using nth_spliceIn[OF b1(2) b1(1)] by simp
      moreover have "so ! t = fl ! t" using nso[of t] gt dl by simp
      ultimately show ?thesis using R len nA gt dl False
        by (intro exI[of _ r] exI[of _ t]) simp
    qed
  qed
qed

section \<open>The objects built by rebuildTreeFromFlat\<close>

lemma find_append:
  "find P (xs @ ys) = (case find P xs of Some x \<Rightarrow> Some x | None \<Rightarrow> find P ys)"
  by (induction xs) auto

lemma createItem_apply:
  "createItem x m k =
     (if k = fid x then Some \<lparr>sh_label = flabel x, sh_children = []\<rparr> else m k)"
  by (simp add: createItem_def)

lemma fold_createItem:
  "fold createItem xs m k =
     (case find (\<lambda>x. fid x = k) (rev xs) of
        Some x \<Rightarrow> Some \<lparr>sh_label = flabel x, sh_children = []\<rparr>
      | None \<Rightarrow> m k)"
proof (induction xs arbitrary: m)
  case Nil
  show ?case by simp
next
  case (Cons x xs)
  have "fold createItem (x # xs) m k = fold createItem xs (createItem x m) k" by simp
  also have "\<dots> = (case find (\<lambda>x. fid x = k) (rev xs) of
        Some x \<Rightarrow> Some \<lparr>sh_label = flabel x, sh_children = []\<rparr>
      | None \<Rightarrow> createItem x m k)" by (rule Cons.IH)
  finally have F: "fold createItem (x # xs) m k = (case find (\<lambda>x. fid x = k) (rev xs) of
        Some x \<Rightarrow> Some \<lparr>sh_label = flabel x, sh_children = []\<rparr>
      | None \<Rightarrow> createItem x m k)" .
  show ?case unfolding F
    by (auto simp: find_append createItem_apply split: option.splits)
qed

lemma dom_fold_createItem: "dom (fold createItem xs m) = dom m \<union> fid ` set xs"
  by (induction xs arbitrary: m) (auto simp: createItem_def)

lemma dom_attachItem: "dom (attachItem x m) = dom m"
  by (auto simp: attachItem_def split: option.splits if_splits)

lemma attachItem_apply:
  "fid x \<in> dom m \<Longrightarrow>
   attachItem x m k =
     (if parentId x = Some k \<and> k \<noteq> []
      then map_option (\<lambda>sh. sh\<lparr>sh_children := sh_children sh @ [fid x]\<rparr>) (m k)
      else m k)"
  by (auto simp: attachItem_def truthy_def split: option.splits)

lemma fold_attachItem:
  "\<forall>x \<in> set xs. fid x \<in> dom m \<Longrightarrow>
   fold attachItem xs m k =
     map_option (\<lambda>sh. sh\<lparr>sh_children := sh_children sh @ childIds xs k\<rparr>) (m k)"
proof (induction xs arbitrary: m)
  case Nil
  show ?case by (simp add: childIds_def option.map_ident)
next
  case (Cons x xs)
  have d: "\<forall>y \<in> set xs. fid y \<in> dom (attachItem x m)"
    using Cons.prems by (simp add: dom_attachItem)
  have fx: "fid x \<in> dom m" using Cons.prems by simp
  show ?case
    unfolding fold_simps Cons.IH[OF d] attachItem_apply[OF fx]
    by (cases "m k") (simp_all add: childIds_def)
qed

lemma rebuild_store:
  "rebuildTreeFromFlat fl = (m, roots) \<Longrightarrow>
   roots = rootIds fl \<and>
   m k = (case find (\<lambda>x. fid x = k) (rev fl) of
            Some x \<Rightarrow> Some \<lparr>sh_label = flabel x, sh_children = childIds fl k\<rparr>
          | None \<Rightarrow> None)"
proof -
  assume a: "rebuildTreeFromFlat fl = (m, roots)"
  have d: "\<forall>x \<in> set fl. fid x \<in> dom (fold createItem fl Map.empty)"
    by (simp add: dom_fold_createItem)
  from a have m: "m = fold attachItem fl (fold createItem fl Map.empty)" and r: "roots = rootIds fl"
    by (simp_all add: rebuildTreeFromFlat_def rootIds_def Let_def)
  show ?thesis unfolding m fold_attachItem[OF d] fold_createItem using r
    by (simp split: option.splits)
qed

lemma those_map_Some:
  "those (map f xs) = Some ys \<Longrightarrow> list_all2 (\<lambda>x y. f x = Some y) xs ys"
proof (induction xs arbitrary: ys)
  case Nil
  then show ?case by simp
next
  case (Cons x xs)
  then show ?case by (auto split: option.splits)
qed

lemma list_all2_pick:
  "list_all2 P xs ys \<Longrightarrow> y \<in> set ys \<Longrightarrow> \<exists>x \<in> set xs. P x y"
  by (induction rule: list_all2_induct) auto

lemma ids_forest: "set (ids xs) = (\<Union>x \<in> set xs. set (ids [x]))"
proof (induction xs)
  case Nil
  show ?case by (simp add: ids_Nil)
next
  case (Cons x xs)
  have "ids (x # xs) = ids [x] @ ids xs" using ids_append[of "[x]" xs] by simp
  then show ?case using Cons.IH by simp
qed

lemma readItem_ids:
  "readItem n m r = Some t \<Longrightarrow>
   set (ids [t]) \<subseteq> {r} \<union> (\<Union>sh \<in> ran m. set (sh_children sh))"
proof (induction n arbitrary: r t)
  case 0
  then show ?case by simp
next
  case (Suc n)
  from Suc.prems obtain sh cs where sh: "m r = Some sh"
    and cs: "those (map (readItem n m) (sh_children sh)) = Some cs"
    and t: "t = MenuItem r (sh_label sh) (Some cs)"
    by (auto split: option.splits)
  from those_map_Some[OF cs]
  have la: "list_all2 (\<lambda>x y. readItem n m x = Some y) (sh_children sh) cs" .
  have "set (ids [c]) \<subseteq> (\<Union>sh \<in> ran m. set (sh_children sh))" if "c \<in> set cs" for c
  proof -
    from list_all2_pick[OF la that]
    obtain x where x: "x \<in> set (sh_children sh)" "readItem n m x = Some c" by blast
    from Suc.IH[OF x(2)] have "set (ids [c]) \<subseteq> {x} \<union> (\<Union>sh \<in> ran m. set (sh_children sh))" .
    moreover have "x \<in> (\<Union>sh \<in> ran m. set (sh_children sh))"
      using x(1) sh by (auto simp: ran_def)
    ultimately show ?thesis by auto
  qed
  then have "set (ids cs) \<subseteq> (\<Union>sh \<in> ran m. set (sh_children sh))"
    unfolding ids_forest[of cs] by blast
  then show ?case unfolding t by (auto simp: ids_Cons ids_Nil)
qed

lemma rebuiltTree_ids:
  assumes "rebuiltTree fl = Some ts"
  shows "set (ids ts) \<subseteq> set (rootIds fl) \<union> (\<Union>sh \<in> ran (fst (rebuildTreeFromFlat fl)). set (sh_children sh))"
proof -
  obtain m roots where g: "rebuildTreeFromFlat fl = (m, roots)" by (cases "rebuildTreeFromFlat fl")
  from rebuild_store[OF g] have r: "roots = rootIds fl" by simp
  from assms g have th: "those (map (readItem (length fl) m) roots) = Some ts"
    by (simp add: rebuiltTree_def)
  from those_map_Some[OF th]
  have la: "list_all2 (\<lambda>x y. readItem (length fl) m x = Some y) roots ts" .
  have "set (ids [c]) \<subseteq> set roots \<union> (\<Union>sh \<in> ran m. set (sh_children sh))" if "c \<in> set ts" for c
  proof -
    from list_all2_pick[OF la that]
    obtain x where x: "x \<in> set roots" "readItem (length fl) m x = Some c" by blast
    from readItem_ids[OF x(2)] x(1) show ?thesis by auto
  qed
  then have "set (ids ts) \<subseteq> set roots \<union> (\<Union>sh \<in> ran m. set (sh_children sh))"
    unfolding ids_forest[of ts] by blast
  then show ?thesis using g r by simp
qed

lemma distinct_fid_eq:
  "distinct (map fid fl) \<Longrightarrow> x \<in> set fl \<Longrightarrow> y \<in> set fl \<Longrightarrow> fid x = fid y \<Longrightarrow> x = y"
  by (auto simp: distinct_map dest: inj_onD)

lemma find_Some_set: "find P xs = Some x \<Longrightarrow> x \<in> set xs \<and> P x"
  by (induction xs) (auto split: if_splits)

lemma store_key_in_list:
  "rebuildTreeFromFlat fl = (m, roots) \<Longrightarrow> m k = Some sh \<Longrightarrow>
   k \<in> fid ` set fl \<and> sh_children sh = childIds fl k"
proof -
  assume g: "rebuildTreeFromFlat fl = (m, roots)" and k: "m k = Some sh"
  from rebuild_store[OF g, of k] k
  obtain x where x: "find (\<lambda>x. fid x = k) (rev fl) = Some x" "sh_children sh = childIds fl k"
    by (auto split: option.splits)
  from find_Some_set[OF x(1)] have "x \<in> set fl" "fid x = k" by simp_all
  then show ?thesis using x(2) by auto
qed

text \<open>The equations that evaluate a rebuild on a concrete list.\<close>

lemmas rebuild_eval = rebuiltTree_def rebuildTreeFromFlat_def createItem_def attachItem_def truthy_def

text \<open>Changing one entry of the list changes the reading around that entry only.\<close>

lemma childIds_append: "childIds (xs @ ys) k = childIds xs k @ childIds ys k"
  by (simp add: childIds_def)

lemma rootIds_append: "rootIds (xs @ ys) = rootIds xs @ rootIds ys"
  by (simp add: rootIds_def)

lemma childIds_update:
  "k < length fl \<Longrightarrow>
   childIds (fl[k := e]) q =
     childIds (take k fl) q @ (if parentId e = Some q \<and> q \<noteq> [] then [fid e] else [])
       @ childIds (drop (Suc k) fl) q"
  unfolding upd_conv_take_nth_drop
  using childIds_append[of "take k fl" "e # drop (Suc k) fl" q]
        childIds_append[of "[e]" "drop (Suc k) fl" q]
  by (simp add: childIds_def)

lemma rootIds_update:
  "k < length fl \<Longrightarrow>
   rootIds (fl[k := e]) =
     rootIds (take k fl) @ (if parentId e = None then [fid e] else []) @ rootIds (drop (Suc k) fl)"
  unfolding upd_conv_take_nth_drop
  using rootIds_append[of "take k fl" "e # drop (Suc k) fl"]
        rootIds_append[of "[e]" "drop (Suc k) fl"]
  by (simp add: rootIds_def)


section \<open>Reading the rebuilt objects always ends\<close>

lemma rooted_in_list: "rooted fl j k \<Longrightarrow> k \<in> fid ` set fl"
  by (cases j) auto

lemma rooted_level_unique:
  "distinct (map fid fl) \<Longrightarrow> rooted fl j k \<Longrightarrow> rooted fl j' k \<Longrightarrow> j = j'"
proof (induction j arbitrary: j' k)
  case 0
  then obtain x where x: "x \<in> set fl" "fid x = k" "parentId x = None" by auto
  show ?case
  proof (cases j')
    case 0
    then show ?thesis by simp
  next
    case (Suc i)
    with "0.prems"(3) obtain y where y: "y \<in> set fl" "fid y = k" "parentId y \<noteq> None" by auto
    from distinct_fid_eq[OF "0.prems"(1) x(1) y(1)] x y show ?thesis by simp
  qed
next
  case (Suc j)
  from Suc.prems(2) obtain x p where x: "x \<in> set fl" "fid x = k" "parentId x = Some p" "rooted fl j p"
    by auto
  show ?case
  proof (cases j')
    case 0
    with Suc.prems(3) obtain y where y: "y \<in> set fl" "fid y = k" "parentId y = None" by auto
    from distinct_fid_eq[OF Suc.prems(1) x(1) y(1)] x y show ?thesis by simp
  next
    case (Suc i)
    with Suc.prems(3) obtain y q where y: "y \<in> set fl" "fid y = k" "parentId y = Some q" "rooted fl i q"
      by auto
    from distinct_fid_eq[OF Suc.prems(1) x(1) y(1)] x y have "p = q" by simp
    with Suc.IH[OF Suc.prems(1) x(4), of i] y(4) Suc show ?thesis by simp
  qed
qed

lemma rooted_chain:
  "distinct (map fid fl) \<Longrightarrow> rooted fl j k \<Longrightarrow>
   \<exists>S. S \<subseteq> fid ` set fl \<and> card S = Suc j \<and> (\<forall>s \<in> S. \<exists>i \<le> j. rooted fl i s)"
proof (induction j arbitrary: k)
  case 0
  then have "{k} \<subseteq> fid ` set fl \<and> card {k} = Suc 0 \<and> (\<forall>s \<in> {k}. \<exists>i \<le> 0. rooted fl i s)"
    using rooted_in_list[OF "0.prems"(2)] by simp
  then show ?case by blast
next
  case (Suc j)
  from Suc.prems(2) obtain p where p: "rooted fl j p" by auto
  from Suc.IH[OF Suc.prems(1) p] obtain S where S: "S \<subseteq> fid ` set fl" "card S = Suc j"
    "\<forall>s \<in> S. \<exists>i \<le> j. rooted fl i s" by blast
  have fin: "finite S" using S(1) by (rule finite_subset) simp
  have "k \<notin> S"
  proof
    assume "k \<in> S"
    with S(3) obtain i where i: "i \<le> j" "rooted fl i k" by blast
    from rooted_level_unique[OF Suc.prems(1) i(2) Suc.prems(2)] i(1) show False by simp
  qed
  then have c: "card (insert k S) = Suc (Suc j)" using fin S(2) by simp
  have sub: "insert k S \<subseteq> fid ` set fl" using S(1) rooted_in_list[OF Suc.prems(2)] by simp
  have lev: "\<forall>s \<in> insert k S. \<exists>i \<le> Suc j. rooted fl i s"
    using S(3) Suc.prems(2) by (metis insert_iff le_Suc_eq)
  from sub c lev show ?case by blast
qed

lemma rooted_bound: "distinct (map fid fl) \<Longrightarrow> rooted fl j k \<Longrightarrow> j < length fl"
proof -
  assume d: "distinct (map fid fl)" and r: "rooted fl j k"
  from rooted_chain[OF d r] obtain S where S: "S \<subseteq> fid ` set fl" "card S = Suc j" by blast
  have "card S \<le> card (fid ` set fl)" using S(1) by (intro card_mono) simp_all
  also have "\<dots> \<le> length fl" by (metis card_length length_map set_map)
  finally show ?thesis using S(2) by simp
qed

lemma those_map_total:
  "(\<And>x. x \<in> set xs \<Longrightarrow> f x \<noteq> None) \<Longrightarrow> \<exists>ys. those (map f xs) = Some ys"
proof (induction xs)
  case Nil
  show ?case by simp
next
  case (Cons x xs)
  then obtain y ys where "f x = Some y" "those (map f xs) = Some ys" by fastforce
  then show ?case by simp
qed

lemma read_rooted:
  assumes d: "distinct (map fid fl)" and g: "rebuildTreeFromFlat fl = (m, roots)"
  shows "rooted fl j k \<Longrightarrow> length fl \<le> j + n \<Longrightarrow> readItem n m k \<noteq> None"
proof (induction n arbitrary: j k)
  case 0
  with rooted_bound[OF d "0.prems"(1)] show ?case by simp
next
  case (Suc n)
  from rooted_in_list[OF Suc.prems(1)] obtain y where y: "y \<in> set fl" "fid y = k" by auto
  then have "find (\<lambda>x. fid x = k) (rev fl) \<noteq> None" by (auto simp: find_None_iff)
  with rebuild_store[OF g, of k] obtain sh where sh: "m k = Some sh" "sh_children sh = childIds fl k"
    by (auto split: option.splits)
  have "readItem n m c \<noteq> None" if "c \<in> set (sh_children sh)" for c
  proof -
    from that sh(2) obtain x where x: "x \<in> set fl" "fid x = c" "parentId x = Some k" "k \<noteq> []"
      by (auto simp: childIds_def)
    then have "rooted fl (Suc j) c" using Suc.prems(1) by auto
    from Suc.IH[OF this] Suc.prems(2) show ?thesis by simp
  qed
  from those_map_total[of "sh_children sh" "readItem n m", OF this]
  obtain cs where "those (map (readItem n m) (sh_children sh)) = Some cs" by blast
  with sh(1) show ?case by simp
qed

lemma rebuiltTree_total:
  assumes "distinct (map fid fl)"
  shows "\<exists>ts. rebuiltTree fl = Some ts"
proof -
  obtain m roots where g: "rebuildTreeFromFlat fl = (m, roots)" by (cases "rebuildTreeFromFlat fl")
  from rebuild_store[OF g] have r: "roots = rootIds fl" by simp
  have "readItem (length fl) m k \<noteq> None" if "k \<in> set roots" for k
  proof -
    from that r have "rooted fl 0 k" by (auto simp: rootIds_def)
    from read_rooted[OF assms g this, of "length fl"] show ?thesis by simp
  qed
  from those_map_total[of roots "readItem (length fl) m", OF this]
  show ?thesis using g by (simp add: rebuiltTree_def)
qed

lemma those_map_cong_Some:
  "those (map f xs) = Some ys \<Longrightarrow> (\<And>x y. x \<in> set xs \<Longrightarrow> f x = Some y \<Longrightarrow> g x = Some y)
     \<Longrightarrow> those (map g xs) = Some ys"
proof (induction xs arbitrary: ys)
  case Nil
  then show ?case by simp
next
  case (Cons x xs)
  from Cons.prems(1) obtain y ys' where y: "f x = Some y" "those (map f xs) = Some ys'" "ys = y # ys'"
    by (auto split: option.splits)
  from Cons.IH[OF y(2)] Cons.prems(2) have "those (map g xs) = Some ys'" by simp
  moreover from Cons.prems(2)[of x y] y(1) have "g x = Some y" by simp
  ultimately show ?case using y(3) by simp
qed

lemma readItem_mono: "readItem n m r = Some t \<Longrightarrow> n \<le> n' \<Longrightarrow> readItem n' m r = Some t"
proof (induction n arbitrary: n' r t)
  case 0
  then show ?case by simp
next
  case (Suc n)
  from Suc.prems(2) obtain k where k: "n' = Suc k" "n \<le> k" by (cases n') auto
  from Suc.prems(1) obtain sh cs where sh: "m r = Some sh"
    and cs: "those (map (readItem n m) (sh_children sh)) = Some cs"
    and t: "t = MenuItem r (sh_label sh) (Some cs)"
    by (auto split: option.splits)
  have "those (map (readItem k m) (sh_children sh)) = Some cs"
    by (rule those_map_cong_Some[OF cs]) (rule Suc.IH[OF _ k(2)])
  then show ?case unfolding k(1) using sh t by simp
qed

lemma readItem_deterministic:
  "readItem n m r = Some a \<Longrightarrow> readItem n' m r = Some b \<Longrightarrow> a = b"
  using readItem_mono[of n m r a "max n n'"] readItem_mono[of n' m r b "max n n'"] by simp

lemma readItem_nodes:
  "readItem n m r = Some t \<Longrightarrow> x \<in> set (nodes [t]) \<Longrightarrow> readItem n m (item_id x) = Some x"
proof (induction n arbitrary: r t)
  case 0
  then show ?case by simp
next
  case (Suc n)
  from Suc.prems(1) obtain sh cs where sh: "m r = Some sh"
    and cs: "those (map (readItem n m) (sh_children sh)) = Some cs"
    and t: "t = MenuItem r (sh_label sh) (Some cs)"
    by (auto split: option.splits)
  from Suc.prems(2) t consider "x = t" | "x \<in> set (nodes cs)" by auto
  then show ?case
  proof cases
    case 1
    then show ?thesis using Suc.prems(1) t by simp
  next
    case 2
    then obtain c where c: "c \<in> set cs" "x \<in> set (nodes [c])"
    proof (induction cs)
      case Nil
      then show ?case by simp
    next
      case (Cons a as)
      from Cons.prems(2) have "x \<in> set (nodes [a]) \<or> x \<in> set (nodes as)"
        using nodes_append[of "[a]" as] by auto
      then show ?case using Cons by auto
    qed
    from list_all2_pick[OF those_map_Some[OF cs] c(1)]
    obtain k where k: "k \<in> set (sh_children sh)" "readItem n m k = Some c" by blast
    from Suc.IH[OF k(2) c(2)] have "readItem n m (item_id x) = Some x" .
    then show ?thesis by (rule readItem_mono) simp
  qed
qed

lemma those_map_cong_Some2:
  "those (map f xs) = Some ys
     \<Longrightarrow> (\<And>x y. x \<in> set xs \<Longrightarrow> y \<in> set ys \<Longrightarrow> f x = Some y \<Longrightarrow> g x = Some y)
     \<Longrightarrow> those (map g xs) = Some ys"
proof (induction xs arbitrary: ys)
  case Nil
  then show ?case by simp
next
  case (Cons x xs)
  from Cons.prems(1) obtain y ys' where y: "f x = Some y" "those (map f xs) = Some ys'" "ys = y # ys'"
    by (auto split: option.splits)
  from Cons.IH[OF y(2)] Cons.prems(2) y(3) have "those (map g xs) = Some ys'" by simp
  moreover from Cons.prems(2)[of x y] y(1,3) have "g x = Some y" by simp
  ultimately show ?case using y(3) by simp
qed

lemma depth_Cons: "depth (x # xs) = max (depth [x]) (depth xs)"
  by (cases x) simp

lemma depth_member: "c \<in> set cs \<Longrightarrow> depth [c] \<le> depth cs"
proof (induction cs)
  case Nil
  then show ?case by simp
next
  case (Cons a as)
  then show ?case unfolding depth_Cons[of a as] by auto
qed

lemma depth_attained: "cs \<noteq> [] \<Longrightarrow> \<exists>c \<in> set cs. depth [c] = depth cs"
proof (induction cs)
  case Nil
  then show ?case by simp
next
  case (Cons a as)
  show ?case
  proof (cases "as = []")
    case True
    then show ?thesis by simp
  next
    case False
    from Cons.IH[OF False] obtain c where c: "c \<in> set as" "depth [c] = depth as" by blast
    show ?thesis
    proof (cases "depth [a] \<le> depth as")
      case True
      then have "depth (a # as) = depth [c]" unfolding depth_Cons[of a as] using c(2) by simp
      then show ?thesis using c(1) by auto
    next
      case False
      then have "depth (a # as) = depth [a]" unfolding depth_Cons[of a as] by simp
      then show ?thesis by auto
    qed
  qed
qed

lemma nodes_member: "c \<in> set cs \<Longrightarrow> set (nodes [c]) \<subseteq> set (nodes cs)"
proof (induction cs)
  case Nil
  then show ?case by simp
next
  case (Cons a as)
  have "nodes (a # as) = nodes [a] @ nodes as" by (rule nodes_Cons_append)
  with Cons show ?case by auto
qed

lemma fuel_depth: "readItem n m r = Some t \<Longrightarrow> readItem (depth [t]) m r = Some t"
proof (induction n arbitrary: r t)
  case 0
  then show ?case by simp
next
  case (Suc n)
  from Suc.prems(1) obtain sh cs where sh: "m r = Some sh"
    and cs: "those (map (readItem n m) (sh_children sh)) = Some cs"
    and t: "t = MenuItem r (sh_label sh) (Some cs)"
    by (auto split: option.splits)
  have step: "readItem (depth cs) m k = Some c"
    if "k \<in> set (sh_children sh)" "c \<in> set cs" "readItem n m k = Some c" for k c
    using readItem_mono[OF Suc.IH[OF that(3)] depth_member[OF that(2)]] .
  have "those (map (readItem (depth cs) m) (sh_children sh)) = Some cs"
    by (rule those_map_cong_Some2[OF cs]) (rule step)
  then show ?case unfolding t using sh by simp
qed

lemma depth_le_card: "readItem n m r = Some t \<Longrightarrow> depth [t] \<le> card (set (ids [t]))"
proof (induction n arbitrary: r t)
  case 0
  then show ?case by simp
next
  case (Suc n)
  from Suc.prems(1) obtain sh cs where sh: "m r = Some sh"
    and cs: "those (map (readItem n m) (sh_children sh)) = Some cs"
    and t: "t = MenuItem r (sh_label sh) (Some cs)"
    by (auto split: option.splits)
  have idt: "set (ids [t]) = insert r (set (ids cs))" unfolding t by (simp add: ids_Cons ids_Nil)
  show ?case
  proof (cases "cs = []")
    case True
    then show ?thesis unfolding t by (simp add: ids_Cons ids_Nil)
  next
    case False
    from depth_attained[OF False] obtain c where c: "c \<in> set cs" "depth [c] = depth cs" by blast
    from list_all2_pick[OF those_map_Some[OF cs] c(1)]
    obtain k where k: "k \<in> set (sh_children sh)" "readItem n m k = Some c" by blast
    have "r \<notin> set (ids [c])"
    proof
      assume "r \<in> set (ids [c])"
      then obtain x where x: "x \<in> set (nodes [c])" "item_id x = r" by (auto simp: ids_def)
      from readItem_nodes[OF k(2) x(1)] x(2) have "readItem n m r = Some x" by simp
      from readItem_deterministic[OF this Suc.prems(1)] have "x = t" .
      with x(1) nodes_member[OF c(1)] have "MenuItem r (sh_label sh) (Some cs) \<in> set (nodes cs)"
        unfolding t by auto
      then show False using not_in_own_nodes by blast
    qed
    moreover have "set (ids [c]) \<subseteq> set (ids cs)"
      using nodes_member[OF c(1)] by (auto simp: ids_def)
    ultimately have "insert r (set (ids [c])) \<subseteq> set (ids [t])" "r \<notin> set (ids [c])"
      unfolding idt by auto
    then have "Suc (card (set (ids [c]))) \<le> card (set (ids [t]))"
      by (metis List.finite_set card_insert_disjoint card_mono)
    moreover have "depth [t] = Suc (depth cs)" unfolding t by simp
    ultimately show ?thesis using Suc.IH[OF k(2)] c(2) by simp
  qed
qed

lemma readItem_fuel_enough:
  assumes g: "rebuildTreeFromFlat fl = (m, roots)" and r: "readItem n m r = Some t"
  shows "readItem (length fl) m r = Some t"
proof -
  have "set (ids [t]) \<subseteq> fid ` set fl"
  proof
    fix i assume "i \<in> set (ids [t])"
    then obtain x where x: "x \<in> set (nodes [t])" "item_id x = i" by (auto simp: ids_def)
    from readItem_nodes[OF r x(1)] x(2) obtain sh where "m i = Some sh"
      by (cases n) (auto split: option.splits)
    from store_key_in_list[OF g this] show "i \<in> fid ` set fl" by simp
  qed
  then have "card (set (ids [t])) \<le> card (fid ` set fl)" by (intro card_mono) simp_all
  also have "\<dots> \<le> length fl" by (metis card_length length_map set_map)
  finally have "depth [t] \<le> length fl" using depth_le_card[OF r] by simp
  from readItem_mono[OF fuel_depth[OF r] this] show ?thesis .
qed

lemma rebuiltTree_fuel_enough:
  assumes g: "rebuildTreeFromFlat fl = (m, roots)"
      and t: "those (map (readItem n m) roots) = Some ts"
  shows "rebuiltTree fl = Some ts"
proof -
  have "those (map (readItem (length fl) m) roots) = Some ts"
    by (rule those_map_cong_Some[OF t]) (rule readItem_fuel_enough[OF g])
  then show ?thesis using g by (simp add: rebuiltTree_def)
qed

section \<open>Rebuilding a flattened tree\<close>

lemma childIds_Nil: "childIds [] k = []"
  by (simp add: childIds_def)

lemma childIds_Cons:
  "childIds (x # xs) k = (if parentId x = Some k \<and> k \<noteq> [] then [fid x] else []) @ childIds xs k"
  by (simp add: childIds_def)

lemma flatten_Cons:
  "flattenWithParent (MenuItem i l c # rest) par =
     \<lparr>fid = i, flabel = l, fchildren = c, parentId = par\<rparr>
     # flattenWithParent (kids (MenuItem i l c)) (Some i) @ flattenWithParent rest par"
  by (simp add: kids_def split: option.splits)

lemma ids_Cons_kids: "ids (MenuItem i l c # rest) = i # ids (kids (MenuItem i l c)) @ ids rest"
  by (simp add: ids_Cons kids_def ids_Nil split: option.splits)

lemma nodes_Cons_kids:
  "set (nodes (MenuItem i l c # rest))
     = {MenuItem i l c} \<union> set (nodes (kids (MenuItem i l c))) \<union> set (nodes rest)"
  by (auto simp: kids_def split: option.splits)

lemma childIds_flatten_absent:
  "par \<noteq> Some k \<Longrightarrow> k \<notin> set (ids xs) \<Longrightarrow> childIds (flattenWithParent xs par) k = []"
proof (induction xs arbitrary: par rule: nodes.induct)
  case 1
  show ?case by (simp add: childIds_Nil)
next
  case (2 i l c rest)
  from "2.prems" have ik: "i \<noteq> k" and nr: "k \<notin> set (ids rest)"
    and nk: "k \<notin> set (ids (kids (MenuItem i l c)))"
    by (auto simp: ids_Cons_kids)
  have r: "childIds (flattenWithParent rest par) k = []"
    using "2.IH"(2)[OF "2.prems"(1) nr] .
  have c: "childIds (flattenWithParent (kids (MenuItem i l c)) (Some i)) k = []"
  proof (cases c)
    case None
    then show ?thesis by (simp add: kids_def childIds_Nil)
  next
    case (Some cs)
    with "2.IH"(1)[OF Some, of "Some i"] ik nk show ?thesis by (simp add: kids_def)
  qed
  show ?case unfolding flatten_Cons using "2.prems"(1) r c
    by (simp add: childIds_Cons childIds_append)
qed

lemma childIds_flatten_top:
  "k \<noteq> [] \<Longrightarrow> k \<notin> set (ids xs) \<Longrightarrow> childIds (flattenWithParent xs (Some k)) k = map item_id xs"
proof (induction xs)
  case Nil
  show ?case by (simp add: childIds_Nil)
next
  case (Cons x xs)
  obtain i l c where x: "x = MenuItem i l c" by (cases x)
  from Cons.prems have ik: "i \<noteq> k" and nr: "k \<notin> set (ids xs)"
    and nk: "k \<notin> set (ids (kids (MenuItem i l c)))"
    by (auto simp: x ids_Cons_kids)
  have c: "childIds (flattenWithParent (kids (MenuItem i l c)) (Some i)) k = []"
    using childIds_flatten_absent[of "Some i" k] ik nk by simp
  show ?case unfolding x flatten_Cons using Cons.IH[OF Cons.prems(1) nr] c Cons.prems(1)
    by (simp add: childIds_Cons childIds_append)
qed

lemma childIds_flatten_node:
  "distinct (ids xs) \<Longrightarrow> par \<noteq> Some k \<Longrightarrow> n \<in> set (nodes xs) \<Longrightarrow> item_id n = k
     \<Longrightarrow> k \<noteq> [] \<or> kids n = []
     \<Longrightarrow> childIds (flattenWithParent xs par) k = map item_id (kids n)"
proof (induction xs arbitrary: par rule: nodes.induct)
  case 1
  then show ?case by simp
next
  case (2 i l c rest)
  let ?ks = "kids (MenuItem i l c)"
  from "2.prems"(1) have dk: "distinct (ids ?ks)" and dr: "distinct (ids rest)"
    and ik: "i \<notin> set (ids ?ks)" and ir: "i \<notin> set (ids rest)"
    and kr: "set (ids ?ks) \<inter> set (ids rest) = {}"
    unfolding ids_Cons_kids by auto
  have top: "childIds [\<lparr>fid = i, flabel = l, fchildren = c, parentId = par\<rparr>] k = []"
    using "2.prems"(2) by (simp add: childIds_Cons childIds_Nil)
  have split: "childIds (flattenWithParent (MenuItem i l c # rest) par) k
      = childIds (flattenWithParent ?ks (Some i)) k @ childIds (flattenWithParent rest par) k"
    unfolding flatten_Cons using "2.prems"(2) by (simp add: childIds_Cons childIds_append)
  from "2.prems"(3) consider "n = MenuItem i l c" | "n \<in> set (nodes ?ks)" | "n \<in> set (nodes rest)"
    unfolding nodes_Cons_kids by auto
  then show ?case
  proof cases
    case 1
    then have ki: "k = i" using "2.prems"(4) by simp
    have r: "childIds (flattenWithParent rest par) k = []"
      using childIds_flatten_absent[OF "2.prems"(2)] ir ki by simp
    show ?thesis
    proof (cases "k = []")
      case True
      with "2.prems"(5) 1 have "?ks = []" by simp
      then show ?thesis unfolding split using r 1 by (simp add: childIds_Nil)
    next
      case False
      have "childIds (flattenWithParent ?ks (Some i)) k = map item_id ?ks"
        using childIds_flatten_top[OF False] ik ki by simp
      then show ?thesis unfolding split using r 1 by simp
    qed
  next
    case 2
    then obtain cs where c: "c = Some cs" "?ks = cs" by (cases c) (auto simp: kids_def)
    have kin: "k \<in> set (ids ?ks)" using 2 "2.prems"(4) by (auto simp: ids_def)
    then have "i \<noteq> k" using ik by auto
    then have "Some i \<noteq> Some k" by simp
    from "2.IH"(1)[OF c(1) _ this _ "2.prems"(4,5)] dk 2 c(2)
    have a: "childIds (flattenWithParent ?ks (Some i)) k = map item_id (kids n)" by simp
    have "k \<notin> set (ids rest)" using kin kr by auto
    from childIds_flatten_absent[OF "2.prems"(2) this] a show ?thesis unfolding split by simp
  next
    case 3
    have kin: "k \<in> set (ids rest)" using 3 "2.prems"(4) by (auto simp: ids_def)
    then have "i \<noteq> k" using ir by auto
    then have ne: "Some i \<noteq> Some k" by simp
    have "k \<notin> set (ids ?ks)" using kin kr by auto
    from childIds_flatten_absent[OF ne this] "2.IH"(2)[OF dr "2.prems"(2) 3 "2.prems"(4,5)]
    show ?thesis unfolding split by simp
  qed
qed

lemma rootIds_flatten_Some: "rootIds (flattenWithParent xs (Some p)) = []"
proof (induction xs arbitrary: p rule: nodes.induct)
  case 1
  show ?case by (simp add: rootIds_def)
next
  case (2 i l c rest)
  have "rootIds (flattenWithParent (kids (MenuItem i l c)) (Some i)) = []"
    using "2.IH"(1) by (cases c) (simp_all add: kids_def rootIds_def)
  then show ?case unfolding flatten_Cons using "2.IH"(2)[of p]
    by (simp add: rootIds_def)
qed

lemma rootIds_flatten_None: "rootIds (flattenWithParent xs None) = map item_id xs"
proof (induction xs)
  case Nil
  show ?case by (simp add: rootIds_def)
next
  case (Cons x xs)
  obtain i l c where x: "x = MenuItem i l c" by (cases x)
  show ?case unfolding x flatten_Cons
    using Cons.IH rootIds_flatten_Some[of "kids (MenuItem i l c)" i]
    by (simp add: rootIds_def)
qed

lemma flatten_names:
  "map (\<lambda>x. (fid x, flabel x)) (flattenWithParent xs par)
     = map (\<lambda>n. (item_id n, label n)) (nodes xs)"
  by (induction xs arbitrary: par rule: nodes.induct) (auto split: option.splits)

lemma flatten_fids: "map fid (flattenWithParent xs par) = ids xs"
proof -
  have "map fst (map (\<lambda>x. (fid x, flabel x)) (flattenWithParent xs par))
          = map fst (map (\<lambda>n. (item_id n, label n)) (nodes xs))"
    by (simp only: flatten_names)
  then show ?thesis by (simp add: ids_def comp_def)
qed

lemma length_flatten: "length (flattenWithParent xs par) = length (nodes xs)"
  using arg_cong[OF flatten_fids[of xs par], of length] by (simp add: ids_def)

lemma depth_le_nodes: "depth xs \<le> length (nodes xs)"
proof (induction xs rule: nodes.induct)
  case 1
  show ?case by simp
next
  case (2 i l c rest)
  then show ?case by (cases c) auto
qed

lemma flatten_store_node:
  assumes d: "distinct (ids T)" and n: "n \<in> set (nodes T)"
      and e: "item_id n \<noteq> [] \<or> kids n = []"
  shows "fst (rebuildTreeFromFlat (flattenWithParent T None)) (item_id n)
           = Some \<lparr>sh_label = label n, sh_children = map item_id (kids n)\<rparr>"
proof -
  let ?fl = "flattenWithParent T None"
  obtain m roots where g: "rebuildTreeFromFlat ?fl = (m, roots)" by (cases "rebuildTreeFromFlat ?fl")
  have "(item_id n, label n) \<in> set (map (\<lambda>n. (item_id n, label n)) (nodes T))"
    using n by auto
  then obtain y where y: "y \<in> set ?fl" "fid y = item_id n" "flabel y = label n"
    unfolding flatten_names[symmetric, of T None] by auto
  have df: "distinct (map fid ?fl)" using d by (simp add: flatten_fids)
  have "find (\<lambda>x. fid x = item_id n) (rev ?fl) \<noteq> None"
    using y by (auto simp: find_None_iff)
  then obtain x where x: "find (\<lambda>x. fid x = item_id n) (rev ?fl) = Some x" by auto
  from find_Some_set[OF x] have "x \<in> set ?fl" "fid x = item_id n" by simp_all
  with distinct_fid_eq[OF df this(1) y(1)] y have lx: "flabel x = label n" by simp
  have "childIds ?fl (item_id n) = map item_id (kids n)"
    using childIds_flatten_node[OF d _ n refl e, of None] by simp
  with rebuild_store[OF g, of "item_id n"] x lx g show ?thesis by simp
qed

lemma read_forest:
  assumes "\<And>n. n \<in> set (nodes xs) \<Longrightarrow>
             m (item_id n) = Some \<lparr>sh_label = label n, sh_children = map item_id (kids n)\<rparr>"
      and "depth xs \<le> f"
  shows "those (map (readItem f m) (map item_id xs)) = Some (shells xs)"
  using assms
proof (induction xs arbitrary: f rule: nodes.induct)
  case 1
  show ?case by simp
next
  case (2 i l c rest)
  let ?ks = "kids (MenuItem i l c)"
  from "2.prems"(2) obtain f' where f: "f = Suc f'" and fk: "depth ?ks \<le> f'"
    by (cases f) (auto simp: kids_def split: option.splits)
  have dr: "depth rest \<le> f" using "2.prems"(2) by simp
  have mi: "m i = Some \<lparr>sh_label = l, sh_children = map item_id ?ks\<rparr>"
    using "2.prems"(1)[of "MenuItem i l c"] by simp
  have sub: "\<And>n. n \<in> set (nodes ?ks) \<Longrightarrow>
             m (item_id n) = Some \<lparr>sh_label = label n, sh_children = map item_id (kids n)\<rparr>"
    using "2.prems"(1) unfolding nodes_Cons_kids by blast
  have subr: "\<And>n. n \<in> set (nodes rest) \<Longrightarrow>
             m (item_id n) = Some \<lparr>sh_label = label n, sh_children = map item_id (kids n)\<rparr>"
    using "2.prems"(1) unfolding nodes_Cons_kids by blast
  have k: "those (map (readItem f' m) (map item_id ?ks)) = Some (shells ?ks)"
  proof (cases c)
    case None
    then show ?thesis by (simp add: kids_def)
  next
    case (Some cs)
    from "2.IH"(1)[OF Some, of f'] sub fk Some show ?thesis by (simp add: kids_def)
  qed
  have r: "those (map (readItem f m) (map item_id rest)) = Some (shells rest)"
    using "2.IH"(2)[OF subr dr] .
  have head: "readItem f m i = Some (MenuItem i l (Some (shells ?ks)))"
    unfolding f using mi k by simp
  have sh: "shells (MenuItem i l c # rest) = MenuItem i l (Some (shells ?ks)) # shells rest"
    by (simp add: kids_def split: option.splits)
  show ?case unfolding sh using head r by simp
qed

lemma rebuild_flatten:
  assumes d: "distinct (ids T)"
      and e: "\<forall>n \<in> set (nodes T). item_id n \<noteq> [] \<or> kids n = []"
  shows "rebuiltTree (flattenWithParent T None) = Some (shells T)"
proof -
  let ?fl = "flattenWithParent T None"
  obtain m roots where g: "rebuildTreeFromFlat ?fl = (m, roots)" by (cases "rebuildTreeFromFlat ?fl")
  from rebuild_store[OF g] have r: "roots = map item_id T" by (simp add: rootIds_flatten_None)
  have st: "\<And>n. n \<in> set (nodes T) \<Longrightarrow>
             m (item_id n) = Some \<lparr>sh_label = label n, sh_children = map item_id (kids n)\<rparr>"
    using flatten_store_node[OF d] e g by simp
  have "depth T \<le> length ?fl" by (simp add: length_flatten depth_le_nodes)
  from read_forest[OF st this] show ?thesis
    using g r by (simp add: rebuiltTree_def)
qed

section \<open>Claims about the tree version\<close>

text \<open>
  C4, as the code has it. In the tree with roots about and collections, where
  collections has the children spring and summer, removing spring and inserting the
  removed node inside collections gives the tree in which spring is the last child of
  collections, after summer, whatever the labels are. The ids and labels of the
  original are all there, but the order of the two children is the other way round.
\<close>

theorem remove_then_insert_inside_appends_last:
  "removeItemFromTree
     [MenuItem ''about'' la None,
      MenuItem ''collections'' lc
        (Some [MenuItem ''spring'' lsp None, MenuItem ''summer'' lsu None])] ''spring''
   = (Some (MenuItem ''spring'' lsp None),
      [MenuItem ''about'' la None,
       MenuItem ''collections'' lc (Some [MenuItem ''summer'' lsu None])])
   \<and> insertItemInTree
       [MenuItem ''about'' la None,
        MenuItem ''collections'' lc (Some [MenuItem ''summer'' lsu None])]
       (MenuItem ''spring'' lsp None) ''collections'' Inside
     = [MenuItem ''about'' la None,
        MenuItem ''collections'' lc
          (Some [MenuItem ''summer'' lsu None, MenuItem ''spring'' lsp None])]"
  by (simp add: removeItemFromTree_def)

text \<open>
  C4 as stated fails: on the tree of the page (labels About Us, Collections, Spring,
  Summer) the result of removing spring and inserting it inside collections is not the
  original tree.
\<close>

theorem remove_then_insert_inside_not_original:
  "insertItemInTree
     (snd (removeItemFromTree
        [MenuItem ''about'' ''About Us'' None,
         MenuItem ''collections'' ''Collections''
           (Some [MenuItem ''spring'' ''Spring'' None, MenuItem ''summer'' ''Summer'' None])]
        ''spring''))
     (the (fst (removeItemFromTree
        [MenuItem ''about'' ''About Us'' None,
         MenuItem ''collections'' ''Collections''
           (Some [MenuItem ''spring'' ''Spring'' None, MenuItem ''summer'' ''Summer'' None])]
        ''spring'')))
     ''collections'' Inside
   \<noteq> [MenuItem ''about'' ''About Us'' None,
       MenuItem ''collections'' ''Collections''
         (Some [MenuItem ''spring'' ''Spring'' None, MenuItem ''summer'' ''Summer'' None])]"
  by (simp add: removeItemFromTree_def)

text \<open>
  C9, as the code has it. A children list that the removal empties is replaced by the
  absent field: a parent whose only child is the removed node comes back without
  children. And the removal creates no explicit empty list: every node of the new tree
  that has one is a node of the old tree, unchanged. So the new tree is free of
  explicit empty lists whenever the old one is; an empty list that was there before
  stays.
\<close>

theorem removeItemFromTree_collapses_emptied:
  "(p \<noteq> tid \<longrightarrow>
      removeItemFromTree [MenuItem p l (Some [MenuItem tid l' c'])] tid
        = (Some (MenuItem tid l' c'), [MenuItem p l None]))
   \<and> (\<forall>n \<in> set (nodes (snd (removeItemFromTree tree tid))).
        children n = Some [] \<longrightarrow> n \<in> set (nodes tree))
   \<and> ((\<forall>n \<in> set (nodes tree). children n \<noteq> Some []) \<longrightarrow>
        (\<forall>n \<in> set (nodes (snd (removeItemFromTree tree tid))). children n \<noteq> Some []))"
proof (intro conjI)
  show "p \<noteq> tid \<longrightarrow>
      removeItemFromTree [MenuItem p l (Some [MenuItem tid l' c'])] tid
        = (Some (MenuItem tid l' c'), [MenuItem p l None])"
    by (simp add: removeItemFromTree_def)
  show keep: "\<forall>n \<in> set (nodes (snd (removeItemFromTree tree tid))).
        children n = Some [] \<longrightarrow> n \<in> set (nodes tree)"
    using remove_keeps_explicit_empty by blast
  show "(\<forall>n \<in> set (nodes tree). children n \<noteq> Some []) \<longrightarrow>
        (\<forall>n \<in> set (nodes (snd (removeItemFromTree tree tid))). children n \<noteq> Some [])"
    using keep by blast
qed

theorem removeItemFromTree_collapses_emptied_witness:
  "''p'' \<noteq> ''b''
   \<and> removeItemFromTree [MenuItem ''p'' ''P'' (Some [MenuItem ''b'' ''B'' None])] ''b''
       = (Some (MenuItem ''b'' ''B'' None), [MenuItem ''p'' ''P'' None])
   \<and> MenuItem ''a'' ''A'' (Some [])
       \<in> set (nodes (snd (removeItemFromTree
            [MenuItem ''a'' ''A'' (Some []), MenuItem ''p'' ''P'' (Some [MenuItem ''b'' ''B'' None])]
            ''b'')))
   \<and> MenuItem ''a'' ''A'' (Some [])
       \<in> set (nodes [MenuItem ''a'' ''A'' (Some []),
                      MenuItem ''p'' ''P'' (Some [MenuItem ''b'' ''B'' None])])"
proof -
  have ne: "''p'' \<noteq> ''b''" by simp
  have mem: "MenuItem ''a'' ''A'' (Some [])
       \<in> set (nodes (snd (removeItemFromTree
            [MenuItem ''a'' ''A'' (Some []), MenuItem ''p'' ''P'' (Some [MenuItem ''b'' ''B'' None])]
            ''b'')))"
    by (simp add: removeItemFromTree_def)
  note inst = removeItemFromTree_collapses_emptied
    [of "''p''" "''b''" "''P''" "''B''" None
        "[MenuItem ''a'' ''A'' (Some []), MenuItem ''p'' ''P'' (Some [MenuItem ''b'' ''B'' None])]"]
  from inst ne have r: "removeItemFromTree [MenuItem ''p'' ''P'' (Some [MenuItem ''b'' ''B'' None])] ''b''
       = (Some (MenuItem ''b'' ''B'' None), [MenuItem ''p'' ''P'' None])"
    by blast
  from inst mem have "MenuItem ''a'' ''A'' (Some [])
       \<in> set (nodes [MenuItem ''a'' ''A'' (Some []),
                      MenuItem ''p'' ''P'' (Some [MenuItem ''b'' ''B'' None])])"
    by (metis MenuItem.sel(3))
  with ne r mem show ?thesis by blast
qed

text \<open>
  C9 as stated fails: the id b is in the tree, and the tree returned by removing it
  still has the node a with its explicit empty children list.
\<close>

theorem removeItemFromTree_explicit_empty_stays:
  "''b'' \<in> set (ids [MenuItem ''a'' ''A'' (Some []), MenuItem ''b'' ''B'' None])
   \<and> snd (removeItemFromTree [MenuItem ''a'' ''A'' (Some []), MenuItem ''b'' ''B'' None] ''b'')
       = [MenuItem ''a'' ''A'' (Some [])]
   \<and> children (MenuItem ''a'' ''A'' (Some [])) = Some []"
  by (simp add: removeItemFromTree_def ids_def)

text \<open>
  C5. The node given to \<^verbatim>\<open>insertItemInTree\<close> is a detached node: it is no node of the
  tree (the node that \<^verbatim>\<open>removeItemFromTree\<close> returns never is one of the tree it returns
  with it, lemma \<open>removed_node_detached\<close>). For a tree with unique ids and such a node:
  when the target id occurs in the tree, the result of the insertion contains the
  node, with its own subtree, exactly once; when the target id occurs nowhere, the
  result is the tree that was given and contains no copy of the node.
\<close>

theorem insertItemInTree_one_copy:
  assumes "distinct (ids tree)" and "node \<notin> set (nodes tree)"
  shows "(targetId \<in> set (ids tree) \<longrightarrow>
            count_list (nodes (insertItemInTree tree node targetId relation)) node = 1)
       \<and> (targetId \<notin> set (ids tree) \<longrightarrow>
            insertItemInTree tree node targetId relation = tree
            \<and> count_list (nodes (insertItemInTree tree node targetId relation)) node = 0)"
proof (intro conjI impI)
  assume "targetId \<in> set (ids tree)"
  then show "count_list (nodes (insertItemInTree tree node targetId relation)) node = 1"
    using assms by (intro insert_one_copy)
next
  assume a: "targetId \<notin> set (ids tree)"
  then show same: "insertItemInTree tree node targetId relation = tree"
    by (rule insert_absent)
  show "count_list (nodes (insertItemInTree tree node targetId relation)) node = 0"
    unfolding insert_absent[OF a] using assms(2) by (simp add: count_list_0_iff)
qed

theorem insertItemInTree_one_copy_witness:
  "distinct (ids [MenuItem ''about'' ''About Us'' None,
                  MenuItem ''collections'' ''Collections'' (Some [MenuItem ''spring'' ''Spring'' None])])
   \<and> MenuItem ''x'' ''X'' None
       \<notin> set (nodes [MenuItem ''about'' ''About Us'' None,
                      MenuItem ''collections'' ''Collections'' (Some [MenuItem ''spring'' ''Spring'' None])])
   \<and> ''about'' \<in> set (ids [MenuItem ''about'' ''About Us'' None,
                  MenuItem ''collections'' ''Collections'' (Some [MenuItem ''spring'' ''Spring'' None])])
   \<and> ''nowhere'' \<notin> set (ids [MenuItem ''about'' ''About Us'' None,
                  MenuItem ''collections'' ''Collections'' (Some [MenuItem ''spring'' ''Spring'' None])])
   \<and> count_list (nodes (insertItemInTree
         [MenuItem ''about'' ''About Us'' None,
          MenuItem ''collections'' ''Collections'' (Some [MenuItem ''spring'' ''Spring'' None])]
         (MenuItem ''x'' ''X'' None) ''about'' After)) (MenuItem ''x'' ''X'' None) = 1
   \<and> insertItemInTree
         [MenuItem ''about'' ''About Us'' None,
          MenuItem ''collections'' ''Collections'' (Some [MenuItem ''spring'' ''Spring'' None])]
         (MenuItem ''x'' ''X'' None) ''nowhere'' Inside
       = [MenuItem ''about'' ''About Us'' None,
          MenuItem ''collections'' ''Collections'' (Some [MenuItem ''spring'' ''Spring'' None])]"
proof -
  let ?T = "[MenuItem ''about'' ''About Us'' None,
             MenuItem ''collections'' ''Collections'' (Some [MenuItem ''spring'' ''Spring'' None])]"
  let ?x = "MenuItem ''x'' ''X'' None"
  have d: "distinct (ids ?T)" by (simp add: ids_def)
  have f: "?x \<notin> set (nodes ?T)" by simp
  have t: "''about'' \<in> set (ids ?T)" by (simp add: ids_def)
  have u: "''nowhere'' \<notin> set (ids ?T)" by (simp add: ids_def)
  from insertItemInTree_one_copy[OF d f, of "''about''" After] t
  have one: "count_list (nodes (insertItemInTree ?T ?x ''about'' After)) ?x = 1" by blast
  from insertItemInTree_one_copy[OF d f, of "''nowhere''" Inside] u
  have same: "insertItemInTree ?T ?x ''nowhere'' Inside = ?T" by blast
  from d f t u one same show ?thesis by blast
qed

text \<open>
  C6. In a tree with unique ids, \<^verbatim>\<open>isDescendant\<close> holds exactly when the candidate id is
  the id of a node strictly inside the subtree of the node with the ancestor id. So it
  is false when the ancestor id is not in the tree, when the node with the ancestor id
  has no children, and for a node and itself.
\<close>

theorem isDescendant_iff_strict_subtree:
  assumes "distinct (ids tree)"
  shows "(isDescendant tree ancestorId candidateId
            \<longleftrightarrow> (\<exists>n \<in> set (nodes tree). item_id n = ancestorId \<and> candidateId \<in> set (ids (kids n))))
       \<and> (ancestorId \<notin> set (ids tree) \<longrightarrow> \<not> isDescendant tree ancestorId candidateId)
       \<and> (\<forall>n \<in> set (nodes tree). item_id n = ancestorId \<and> kids n = []
             \<longrightarrow> \<not> isDescendant tree ancestorId candidateId)
       \<and> \<not> isDescendant tree ancestorId ancestorId"
proof -
  have main: "isDescendant tree ancestorId c
           \<longleftrightarrow> (\<exists>n \<in> set (nodes tree). item_id n = ancestorId \<and> c \<in> set (ids (kids n)))" for c
    unfolding isDescendant_def by (rule findInChildren_iff[OF assms])
  have absent: "ancestorId \<notin> set (ids tree) \<longrightarrow> \<not> isDescendant tree ancestorId candidateId"
    unfolding isDescendant_def using findInChildren_absent by blast
  have self: "\<not> isDescendant tree ancestorId ancestorId"
  proof
    assume "isDescendant tree ancestorId ancestorId"
    then obtain m where "m \<in> set (nodes tree)" "item_id m = ancestorId"
      "ancestorId \<in> set (ids (kids m))" unfolding main by blast
    then show False using node_not_in_own_subtree[OF assms, of m] by simp
  qed
  have leaf: "\<not> isDescendant tree ancestorId candidateId"
    if a: "n \<in> set (nodes tree)" "item_id n = ancestorId \<and> kids n = []" for n
  proof
    assume "isDescendant tree ancestorId candidateId"
    then obtain m where m: "m \<in> set (nodes tree)" "item_id m = ancestorId"
      "candidateId \<in> set (ids (kids m))" unfolding main by blast
    have "m = n" using node_unique[OF assms m(1) a(1)] m(2) a(2) by simp
    with m(3) a(2) show False by (simp add: ids_Nil)
  qed
  from main[of candidateId] absent leaf self show ?thesis by blast
qed

theorem isDescendant_iff_strict_subtree_witness:
  "distinct (ids [MenuItem ''A'' ''a'' (Some [MenuItem ''B'' ''b'' (Some [MenuItem ''C'' ''c'' None])])])
   \<and> isDescendant [MenuItem ''A'' ''a'' (Some [MenuItem ''B'' ''b'' (Some [MenuItem ''C'' ''c'' None])])]
        ''A'' ''C''
   \<and> \<not> isDescendant [MenuItem ''A'' ''a'' (Some [MenuItem ''B'' ''b'' (Some [MenuItem ''C'' ''c'' None])])]
        ''C'' ''A''
   \<and> \<not> isDescendant [MenuItem ''A'' ''a'' (Some [MenuItem ''B'' ''b'' (Some [MenuItem ''C'' ''c'' None])])]
        ''A'' ''A''
   \<and> \<not> isDescendant [MenuItem ''A'' ''a'' (Some [MenuItem ''B'' ''b'' (Some [MenuItem ''C'' ''c'' None])])]
        ''Z'' ''C''"
proof -
  let ?T = "[MenuItem ''A'' ''a'' (Some [MenuItem ''B'' ''b'' (Some [MenuItem ''C'' ''c'' None])])]"
  have d: "distinct (ids ?T)" by (simp add: ids_def)
  have inA: "MenuItem ''A'' ''a'' (Some [MenuItem ''B'' ''b'' (Some [MenuItem ''C'' ''c'' None])])
               \<in> set (nodes ?T)" by simp
  have inC: "MenuItem ''C'' ''c'' None \<in> set (nodes ?T)" by simp
  have z: "''Z'' \<notin> set (ids ?T)" by (simp add: ids_def)
  have "''C'' \<in> set (ids (kids (MenuItem ''A'' ''a''
           (Some [MenuItem ''B'' ''b'' (Some [MenuItem ''C'' ''c'' None])]))))"
    by (simp add: ids_def kids_def)
  with isDescendant_iff_strict_subtree[OF d, of "''A''" "''C''"] inA
  have p1: "isDescendant ?T ''A'' ''C''" by (metis MenuItem.sel(1))
  from isDescendant_iff_strict_subtree[OF d, of "''C''" "''A''"] inC
  have p2: "\<not> isDescendant ?T ''C'' ''A''" by (metis MenuItem.sel(1) MenuItem.sel(3) kids_def option.simps(4))
  from isDescendant_iff_strict_subtree[OF d, of "''A''" "''A''"]
  have p3: "\<not> isDescendant ?T ''A'' ''A''" by blast
  from isDescendant_iff_strict_subtree[OF d, of "''Z''" "''C''"] z
  have p4: "\<not> isDescendant ?T ''Z'' ''C''" by blast
  from d p1 p2 p3 p4 show ?thesis by blast
qed

lemma store_children:
  assumes g: "rebuildTreeFromFlat fl = (m, roots)" and x: "x \<in> set fl"
  shows "\<exists>sh. m (fid x) = Some sh \<and> sh_children sh = childIds fl (fid x)"
proof -
  have "find (\<lambda>y. fid y = fid x) (rev fl) \<noteq> None" using x by (auto simp: find_None_iff)
  with rebuild_store[OF g, of "fid x"] show ?thesis by (auto split: option.splits)
qed

section \<open>Claims about the flat version\<close>

text \<open>
  C1, as the code has it. \<^verbatim>\<open>rebuildTreeFromFlat\<close> has no error exit. For an entry whose
  \<^verbatim>\<open>parentId\<close> is not \<^verbatim>\<open>null\<close> and is the id of no entry, the guard
  \<^verbatim>\<open>if (parent && current)\<close> skips the \<^verbatim>\<open>push\<close>: the root list and the children arrays
  are made of the other entries only, in list order, and the entry is in none of them.
  With distinct ids its id is then absent from the tree that is returned.
\<close>

theorem rebuild_drops_dangling_entry:
  assumes "rebuildTreeFromFlat flatList = (itemMap, roots)"
      and "e \<in> set flatList" and "parentId e = Some p" and "p \<notin> fid ` set flatList"
  shows "roots = map fid (filter (\<lambda>x. parentId x = None) flatList)
       \<and> e \<notin> set (filter (\<lambda>x. parentId x = None) flatList)
       \<and> (\<forall>k sh. itemMap k = Some sh \<longrightarrow>
             sh_children sh = map fid (filter (\<lambda>x. parentId x = Some k \<and> k \<noteq> []) flatList)
             \<and> e \<notin> set (filter (\<lambda>x. parentId x = Some k \<and> k \<noteq> []) flatList))
       \<and> (distinct (map fid flatList) \<longrightarrow>
             (\<exists>ts. rebuiltTree flatList = Some ts \<and> fid e \<notin> set (ids ts)))"
proof (intro conjI allI impI)
  show "roots = map fid (filter (\<lambda>x. parentId x = None) flatList)"
    using rebuild_store[OF assms(1)] by (simp add: rootIds_def)
  show "e \<notin> set (filter (\<lambda>x. parentId x = None) flatList)"
    using assms(3) by simp
next
  fix k sh assume k: "itemMap k = Some sh"
  from store_key_in_list[OF assms(1) k]
  show "sh_children sh = map fid (filter (\<lambda>x. parentId x = Some k \<and> k \<noteq> []) flatList)"
    by (simp add: childIds_def)
  from store_key_in_list[OF assms(1) k] assms(3,4)
  show "e \<notin> set (filter (\<lambda>x. parentId x = Some k \<and> k \<noteq> []) flatList)"
    by auto
next
  assume d: "distinct (map fid flatList)"
  from rebuiltTree_total[OF d] obtain ts where t: "rebuiltTree flatList = Some ts" by blast
  have "fid e \<notin> set (ids ts)"
  proof
    assume "fid e \<in> set (ids ts)"
    with rebuiltTree_ids[OF t] assms(1)
    consider "fid e \<in> set (rootIds flatList)"
      | sh where "sh \<in> ran itemMap" "fid e \<in> set (sh_children sh)" by auto
    then show False
    proof cases
      case 1
      then obtain x where x: "x \<in> set flatList" "parentId x = None" "fid x = fid e"
        by (auto simp: rootIds_def)
      from distinct_fid_eq[OF d x(1) assms(2) x(3)] x(2) assms(3) show False by simp
    next
      case 2
      then obtain k where k: "itemMap k = Some sh" by (auto simp: ran_def)
      from store_key_in_list[OF assms(1) k] 2(2)
      obtain x where x: "x \<in> set flatList" "parentId x = Some k" "fid x = fid e"
        and kin: "k \<in> fid ` set flatList"
        by (auto simp: childIds_def)
      from distinct_fid_eq[OF d x(1) assms(2) x(3)] x(2) assms(3) have "k = p" by simp
      with kin assms(4) show False by simp
    qed
  qed
  with t show "\<exists>ts. rebuiltTree flatList = Some ts \<and> fid e \<notin> set (ids ts)" by blast
qed

theorem rebuild_drops_dangling_entry_witness:
  "rebuildTreeFromFlat
     [\<lparr>fid = ''a'', flabel = ''A'', fchildren = None, parentId = None\<rparr>,
      \<lparr>fid = ''b'', flabel = ''B'', fchildren = None, parentId = Some ''a''\<rparr>,
      \<lparr>fid = ''c'', flabel = ''C'', fchildren = None, parentId = Some ''zzz''\<rparr>]
     = (fst (rebuildTreeFromFlat
          [\<lparr>fid = ''a'', flabel = ''A'', fchildren = None, parentId = None\<rparr>,
           \<lparr>fid = ''b'', flabel = ''B'', fchildren = None, parentId = Some ''a''\<rparr>,
           \<lparr>fid = ''c'', flabel = ''C'', fchildren = None, parentId = Some ''zzz''\<rparr>]), [''a''])
   \<and> ''zzz'' \<notin> fid ` set
         [\<lparr>fid = ''a'', flabel = ''A'', fchildren = None, parentId = None\<rparr>,
          \<lparr>fid = ''b'', flabel = ''B'', fchildren = None, parentId = Some ''a''\<rparr>,
          \<lparr>fid = ''c'', flabel = ''C'', fchildren = None, parentId = Some ''zzz''\<rparr>]
   \<and> distinct (map fid
         [\<lparr>fid = ''a'', flabel = ''A'', fchildren = None, parentId = None\<rparr>,
          \<lparr>fid = ''b'', flabel = ''B'', fchildren = None, parentId = Some ''a''\<rparr>,
          \<lparr>fid = ''c'', flabel = ''C'', fchildren = None, parentId = Some ''zzz''\<rparr>])
   \<and> rebuiltTree
         [\<lparr>fid = ''a'', flabel = ''A'', fchildren = None, parentId = None\<rparr>,
          \<lparr>fid = ''b'', flabel = ''B'', fchildren = None, parentId = Some ''a''\<rparr>,
          \<lparr>fid = ''c'', flabel = ''C'', fchildren = None, parentId = Some ''zzz''\<rparr>]
       = Some [MenuItem ''a'' ''A'' (Some [MenuItem ''b'' ''B'' (Some [])])]
   \<and> ''c'' \<notin> set (ids [MenuItem ''a'' ''A'' (Some [MenuItem ''b'' ''B'' (Some [])])])"
proof -
  let ?c = "\<lparr>fid = ''c'', flabel = ''C'', fchildren = None, parentId = Some ''zzz''\<rparr>"
  let ?fl = "[\<lparr>fid = ''a'', flabel = ''A'', fchildren = None, parentId = None\<rparr>,
      \<lparr>fid = ''b'', flabel = ''B'', fchildren = None, parentId = Some ''a''\<rparr>, ?c]"
  have g: "rebuildTreeFromFlat ?fl = (fst (rebuildTreeFromFlat ?fl), [''a''])"
    by (simp add: rebuildTreeFromFlat_def)
  have e: "?c \<in> set ?fl" by simp
  have p: "parentId ?c = Some ''zzz''" by simp
  have z: "''zzz'' \<notin> fid ` set ?fl" by simp
  have d: "distinct (map fid ?fl)" by simp
  have t: "rebuiltTree ?fl = Some [MenuItem ''a'' ''A'' (Some [MenuItem ''b'' ''B'' (Some [])])]"
    by (simp add: rebuild_eval)
  from rebuild_drops_dangling_entry[OF g e p z] d
  obtain ts where "rebuiltTree ?fl = Some ts" "fid ?c \<notin> set (ids ts)"
    by blast
  with t have "fid ?c \<notin> set (ids [MenuItem ''a'' ''A'' (Some [MenuItem ''b'' ''B'' (Some [])])])"
    by simp
  then have "''c'' \<notin> set (ids [MenuItem ''a'' ''A'' (Some [MenuItem ''b'' ''B'' (Some [])])])"
    by simp
  with g z d t show ?thesis by blast
qed

text \<open>
  C1 as stated fails: the entry b names the parent zzz, which is no entry of the list,
  and the list is rebuilt without any error into the tree of a alone.
\<close>

theorem rebuild_dangling_no_error:
  "parentId \<lparr>fid = ''b'', flabel = ''B'', fchildren = None, parentId = Some ''zzz''\<rparr> \<noteq> None
   \<and> ''zzz'' \<notin> fid ` set [\<lparr>fid = ''a'', flabel = ''A'', fchildren = None, parentId = None\<rparr>,
                           \<lparr>fid = ''b'', flabel = ''B'', fchildren = None, parentId = Some ''zzz''\<rparr>]
   \<and> rebuiltTree [\<lparr>fid = ''a'', flabel = ''A'', fchildren = None, parentId = None\<rparr>,
                   \<lparr>fid = ''b'', flabel = ''B'', fchildren = None, parentId = Some ''zzz''\<rparr>]
       = Some [MenuItem ''a'' ''A'' (Some [])]"
  by (simp add: rebuild_eval)

text \<open>
  C2 fails on the code where the dragged entry precedes the target and the position is
  below. In the flat list of the two roots a and b, dropping a below b gives the list
  a, b again: a is immediately before b, not immediately after it. (The lemma
  \<open>reorderFlat_positions\<close> above has the general picture: the dragged entry lands
  immediately before the target for above, and also for below when it came from
  before the target.)
\<close>

theorem reorderFlat_below_later_target:
  "reorderFlat (flattenWithParent [MenuItem ''a'' ''A'' None, MenuItem ''b'' ''B'' None] None)
     ''a'' ''b'' (Some Below)
   = Some (flattenWithParent [MenuItem ''a'' ''A'' None, MenuItem ''b'' ''B'' None] None)
   \<and> map_option (map fid)
        (reorderFlat (flattenWithParent [MenuItem ''a'' ''A'' None, MenuItem ''b'' ''B'' None] None)
           ''a'' ''b'' (Some Below))
     = Some [''a'', ''b'']
   \<and> handleDrop [MenuItem ''a'' ''A'' None, MenuItem ''b'' ''B'' None] (Some ''a'') (Some Below) ''b''
     = Some (Some [MenuItem ''a'' ''A'' (Some []), MenuItem ''b'' ''B'' (Some [])])"
  by (simp add: handleDrop_def reorderFlat_def spliceOut_def spliceIn_def rebuild_eval)

text \<open>
  C7, as the code has it. For an entry found at an index \<open>k > 0\<close> of the flat list,
  \<^verbatim>\<open>handleDemote\<close> sets its parent reference to the id of the entry at index \<open>k - 1\<close>,
  the entry immediately before it in the flat list, and leaves every other parent
  reference, every id and every label as it was. When that id is not empty, the
  rebuild puts the demoted node into the children of that entry's object.
\<close>

theorem demoteFlat_previous_entry:
  assumes "findIndex (\<lambda>x. fid x = i) flatList = Some k" and "0 < k"
  shows "\<exists>fl'. demoteFlat flatList i = Some fl'
           \<and> length fl' = length flatList
           \<and> parentId (fl' ! k) = Some (fid (flatList ! (k - 1)))
           \<and> (\<forall>j < length flatList.
                 fid (fl' ! j) = fid (flatList ! j) \<and> flabel (fl' ! j) = flabel (flatList ! j)
                 \<and> (j \<noteq> k \<longrightarrow> parentId (fl' ! j) = parentId (flatList ! j)))
           \<and> (fid (flatList ! (k - 1)) \<noteq> [] \<longrightarrow>
                (\<exists>sh. fst (rebuildTreeFromFlat fl') (fid (flatList ! (k - 1))) = Some sh
                      \<and> i \<in> set (sh_children sh)))"
proof -
  from findIndex_Some[OF assms(1)] have kl: "k < length flatList" and ik: "fid (flatList ! k) = i"
    by simp_all
  define fl1 where "fl1 = flatList[k := (flatList ! k)\<lparr>parentId := Some (fid (flatList ! (k - 1)))\<rparr>]"
  define fl' where "fl' = (if fchildren (flatList ! (k - 1)) = None
                           then fl1[k - 1 := (flatList ! (k - 1))\<lparr>fchildren := Some []\<rparr>] else fl1)"
  have D: "demoteFlat flatList i = Some fl'"
    using assms by (simp add: demoteFlat_def fl'_def fl1_def Let_def)
  have len: "length fl' = length flatList" by (simp add: fl'_def fl1_def)
  have km: "k - 1 \<noteq> k" "k - 1 < length flatList" using assms(2) kl by simp_all
  have pk: "parentId (fl' ! k) = Some (fid (flatList ! (k - 1)))"
    using kl km by (simp add: fl'_def fl1_def)
  have rest: "fid (fl' ! j) = fid (flatList ! j) \<and> flabel (fl' ! j) = flabel (flatList ! j)
                 \<and> (j \<noteq> k \<longrightarrow> parentId (fl' ! j) = parentId (flatList ! j))"
    if "j < length flatList" for j
    using that kl km by (simp add: fl'_def fl1_def nth_list_update)
  have child: "\<exists>sh. fst (rebuildTreeFromFlat fl') (fid (flatList ! (k - 1))) = Some sh
                      \<and> i \<in> set (sh_children sh)"
    if ne: "fid (flatList ! (k - 1)) \<noteq> []"
  proof -
    obtain m roots where g: "rebuildTreeFromFlat fl' = (m, roots)" by (cases "rebuildTreeFromFlat fl'")
    have prev: "fl' ! (k - 1) \<in> set fl'" "fid (fl' ! (k - 1)) = fid (flatList ! (k - 1))"
      using km(2) len rest[OF km(2)] by simp_all
    from store_children[OF g prev(1)] prev(2)
    obtain sh where sh: "m (fid (flatList ! (k - 1))) = Some sh"
      "sh_children sh = childIds fl' (fid (flatList ! (k - 1)))" by auto
    have "fl' ! k \<in> set fl'" "fid (fl' ! k) = i"
      using kl len rest[OF kl] ik by simp_all
    with pk ne have "i \<in> set (childIds fl' (fid (flatList ! (k - 1))))"
      by (auto simp: childIds_def)
    with sh g show ?thesis by simp
  qed
  from D len pk rest child show ?thesis by blast
qed

theorem demoteFlat_previous_entry_witness:
  "findIndex (\<lambda>x. fid x = ''B'')
     (flattenWithParent [MenuItem ''A'' ''a'' (Some [MenuItem ''A1'' ''a1'' None]),
                         MenuItem ''B'' ''b'' None] None) = Some 2
   \<and> (0::nat) < 2
   \<and> ''A1'' \<noteq> []
   \<and> (\<exists>fl'. demoteFlat (flattenWithParent [MenuItem ''A'' ''a'' (Some [MenuItem ''A1'' ''a1'' None]),
                         MenuItem ''B'' ''b'' None] None) ''B'' = Some fl'
          \<and> parentId (fl' ! 2) = Some ''A1''
          \<and> (\<exists>sh. fst (rebuildTreeFromFlat fl') ''A1'' = Some sh \<and> ''B'' \<in> set (sh_children sh)))"
proof -
  let ?fl = "flattenWithParent [MenuItem ''A'' ''a'' (Some [MenuItem ''A1'' ''a1'' None]),
                         MenuItem ''B'' ''b'' None] None"
  have h1: "findIndex (\<lambda>x. fid x = ''B'') ?fl = Some 2" by simp
  have h2: "(0::nat) < 2" by simp
  have p: "fid (?fl ! (2 - 1)) = ''A1''" by simp
  have ne: "''A1'' \<noteq> []" by simp
  from demoteFlat_previous_entry[OF h1 h2]
  obtain fl' where f: "demoteFlat ?fl ''B'' = Some fl'"
    "parentId (fl' ! 2) = Some (fid (?fl ! (2 - 1)))"
    "fid (?fl ! (2 - 1)) \<noteq> [] \<longrightarrow>
       (\<exists>sh. fst (rebuildTreeFromFlat fl') (fid (?fl ! (2 - 1))) = Some sh
             \<and> ''B'' \<in> set (sh_children sh))"
    by blast
  from f(2) have a: "parentId (fl' ! 2) = Some ''A1''" unfolding p .
  from f(3) ne have b: "\<exists>sh. fst (rebuildTreeFromFlat fl') ''A1'' = Some sh
             \<and> ''B'' \<in> set (sh_children sh)" unfolding p by blast
  from h1 h2 ne f(1) a b show ?thesis by blast
qed

text \<open>
  C7 as stated fails: for the roots A (with the child A1) and B, the preceding sibling
  of B at its level is A, but demoting B makes it a child of A1, the entry before it
  in the flat list.
\<close>

theorem demoteFlat_not_preceding_sibling:
  "map_option (map fid)
     (demoteFlat (flattenWithParent [MenuItem ''A'' ''a'' (Some [MenuItem ''A1'' ''a1'' None]),
                                     MenuItem ''B'' ''b'' None] None) ''B'')
   = Some [''A'', ''A1'', ''B'']
   \<and> map_option (map parentId)
     (demoteFlat (flattenWithParent [MenuItem ''A'' ''a'' (Some [MenuItem ''A1'' ''a1'' None]),
                                     MenuItem ''B'' ''b'' None] None) ''B'')
   = Some [None, Some ''A'', Some ''A1'']
   \<and> handleDemote [MenuItem ''A'' ''a'' (Some [MenuItem ''A1'' ''a1'' None]),
                     MenuItem ''B'' ''b'' None] ''B''
     = Some (Some [MenuItem ''A'' ''a''
                     (Some [MenuItem ''A1'' ''a1'' (Some [MenuItem ''B'' ''b'' (Some [])])])])"
  by (simp add: handleDemote_def demoteFlat_def rebuild_eval)

text \<open>
  C8, as the code has it. Promoting an entry whose parent reference is \<^verbatim>\<open>null\<close> does
  nothing. For an entry at index \<open>k\<close> with a non-empty parent id \<open>p\<close>, where \<open>q\<close> is the
  first entry with id \<open>p\<close> and the parent reference of \<open>q\<close> is \<^verbatim>\<open>null\<close> or a non-empty
  id, the parent reference becomes that of \<open>q\<close>. After the rebuild the promoted node
  stands among its new siblings at its place in the list: after the new siblings
  that precede it in the flat list and before those that follow it.
\<close>

theorem promoteFlat_list_order_placement:
  assumes "findIndex (\<lambda>x. fid x = i) flatList = Some k"
  shows "(parentId (flatList ! k) = None \<longrightarrow> promoteFlat flatList i = None)
       \<and> (\<forall>p q. parentId (flatList ! k) = Some p \<and> p \<noteq> []
                \<and> find (\<lambda>x. fid x = p) flatList = Some q \<and> parentId q \<noteq> Some [] \<longrightarrow>
            promoteFlat flatList i = Some (flatList[k := (flatList ! k)\<lparr>parentId := parentId q\<rparr>])
            \<and> (parentId q = None \<longrightarrow>
                  snd (rebuildTreeFromFlat (flatList[k := (flatList ! k)\<lparr>parentId := parentId q\<rparr>]))
                    = rootIds (take k flatList) @ [i] @ rootIds (drop (Suc k) flatList))
            \<and> (\<forall>g sh. parentId q = Some g
                  \<and> fst (rebuildTreeFromFlat (flatList[k := (flatList ! k)\<lparr>parentId := parentId q\<rparr>])) g
                      = Some sh \<longrightarrow>
                  sh_children sh
                    = childIds (take k flatList) g @ [i] @ childIds (drop (Suc k) flatList) g))"
proof (intro conjI allI impI)
  from findIndex_Some[OF assms] have kl: "k < length flatList" and ik: "fid (flatList ! k) = i"
    by simp_all
  show "promoteFlat flatList i = None" if "parentId (flatList ! k) = None"
    using assms that by (simp add: promoteFlat_def truthy_def)
  fix p q
  assume a: "parentId (flatList ! k) = Some p \<and> p \<noteq> []
               \<and> find (\<lambda>x. fid x = p) flatList = Some q \<and> parentId q \<noteq> Some []"
  define fl' where "fl' = flatList[k := (flatList ! k)\<lparr>parentId := parentId q\<rparr>]"
  have same: "(\<lambda>x. Some (fid x) = Some p) = (\<lambda>x. fid x = p)" by auto
  have tq: "(if truthy (parentId q) then parentId q else None) = parentId q"
    using a by (cases "parentId q") (auto simp: truthy_def)
  show P: "promoteFlat flatList i = Some (flatList[k := (flatList ! k)\<lparr>parentId := parentId q\<rparr>])"
    using assms a tq by (simp add: promoteFlat_def truthy_def Let_def same)
  obtain m roots where g: "rebuildTreeFromFlat fl' = (m, roots)" by (cases "rebuildTreeFromFlat fl'")
  show "snd (rebuildTreeFromFlat (flatList[k := (flatList ! k)\<lparr>parentId := parentId q\<rparr>]))
          = rootIds (take k flatList) @ [i] @ rootIds (drop (Suc k) flatList)"
    if "parentId q = None"
    using rebuild_store[OF g] g that rootIds_update[OF kl, of "(flatList ! k)\<lparr>parentId := parentId q\<rparr>"] ik
    unfolding fl'_def by simp
  fix g' sh
  assume b: "parentId q = Some g'
     \<and> fst (rebuildTreeFromFlat (flatList[k := (flatList ! k)\<lparr>parentId := parentId q\<rparr>])) g' = Some sh"
  then have mg: "m g' = Some sh" using g unfolding fl'_def by simp
  have ne: "g' \<noteq> []" using a b by auto
  from store_key_in_list[OF g mg] have "sh_children sh = childIds fl' g'" by simp
  then show "sh_children sh = childIds (take k flatList) g' @ [i] @ childIds (drop (Suc k) flatList) g'"
    unfolding fl'_def using childIds_update[OF kl, of "(flatList ! k)\<lparr>parentId := parentId q\<rparr>" g'] b ne ik
    by simp
qed

theorem promoteFlat_list_order_placement_witness:
  "findIndex (\<lambda>x. fid x = ''X'')
     (flattenWithParent [MenuItem ''A'' ''a'' (Some [MenuItem ''X'' ''x'' None]),
                         MenuItem ''B'' ''b'' None] None) = Some 1
   \<and> parentId (flattenWithParent [MenuItem ''A'' ''a'' (Some [MenuItem ''X'' ''x'' None]),
                         MenuItem ''B'' ''b'' None] None ! 1) = Some ''A''
   \<and> find (\<lambda>x. fid x = ''A'')
        (flattenWithParent [MenuItem ''A'' ''a'' (Some [MenuItem ''X'' ''x'' None]),
                         MenuItem ''B'' ''b'' None] None)
       = Some \<lparr>fid = ''A'', flabel = ''a'', fchildren = Some [MenuItem ''X'' ''x'' None],
               parentId = None\<rparr>
   \<and> map_option (map (\<lambda>x. (fid x, parentId x)))
        (promoteFlat (flattenWithParent [MenuItem ''A'' ''a'' (Some [MenuItem ''X'' ''x'' None]),
                         MenuItem ''B'' ''b'' None] None) ''X'')
       = Some [(''A'', None), (''X'', None), (''B'', None)]
   \<and> snd (rebuildTreeFromFlat
        ((flattenWithParent [MenuItem ''A'' ''a'' (Some [MenuItem ''X'' ''x'' None]),
                         MenuItem ''B'' ''b'' None] None)
           [1 := \<lparr>fid = ''X'', flabel = ''x'', fchildren = None, parentId = None\<rparr>]))
       = [''A'', ''X'', ''B'']"
proof -
  let ?fl = "flattenWithParent [MenuItem ''A'' ''a'' (Some [MenuItem ''X'' ''x'' None]),
                         MenuItem ''B'' ''b'' None] None"
  let ?q = "\<lparr>fid = ''A'', flabel = ''a'', fchildren = Some [MenuItem ''X'' ''x'' None],
               parentId = None\<rparr>"
  have h1: "findIndex (\<lambda>x. fid x = ''X'') ?fl = Some 1" by simp
  have h2: "parentId (?fl ! 1) = Some ''A''" by simp
  have h3: "find (\<lambda>x. fid x = ''A'') ?fl = Some ?q" by simp
  have h4: "''A'' \<noteq> []" "parentId ?q \<noteq> Some []" "parentId ?q = None" by simp_all
  note inst = promoteFlat_list_order_placement[OF h1]
  from inst h2 h3 h4
  have p: "promoteFlat ?fl ''X'' = Some (?fl[1 := (?fl ! 1)\<lparr>parentId := parentId ?q\<rparr>])"
    by blast
  from inst h2 h3 h4
  have r: "snd (rebuildTreeFromFlat (?fl[1 := (?fl ! 1)\<lparr>parentId := parentId ?q\<rparr>]))
             = rootIds (take 1 ?fl) @ [''X''] @ rootIds (drop (Suc 1) ?fl)"
    by blast
  have e: "(?fl ! 1)\<lparr>parentId := parentId ?q\<rparr>
             = \<lparr>fid = ''X'', flabel = ''x'', fchildren = None, parentId = None\<rparr>"
    by simp
  have c1: "map_option (map (\<lambda>x. (fid x, parentId x))) (promoteFlat ?fl ''X'')
              = Some [(''A'', None), (''X'', None), (''B'', None)]"
    unfolding p by simp
  have c2: "snd (rebuildTreeFromFlat
              (?fl[1 := \<lparr>fid = ''X'', flabel = ''x'', fchildren = None, parentId = None\<rparr>]))
            = [''A'', ''X'', ''B'']"
    using r unfolding e by (simp add: rootIds_def)
  from h1 h2 h3 c1 c2 show ?thesis by blast
qed

text \<open>
  C8 as stated fails in its last part: for the roots A (with the child X) and B,
  promoting X gives the roots A, X, B. The promoted node is not appended after the
  existing roots A and B.
\<close>

theorem promote_not_appended_last:
  "handlePromote [MenuItem ''A'' ''a'' (Some [MenuItem ''X'' ''x'' None]), MenuItem ''B'' ''b'' None] ''X''
     = Some (Some [MenuItem ''A'' ''a'' (Some []), MenuItem ''X'' ''x'' (Some []),
                   MenuItem ''B'' ''b'' (Some [])])"
  by (simp add: handlePromote_def promoteFlat_def rebuild_eval)

text \<open>
  C3 fails on the code for a node whose id is the empty string: its children are
  flattened with the parent reference \<^verbatim>\<open>""\<close>, which \<^verbatim>\<open>if (item.parentId)\<close> takes for no
  parent and \<^verbatim>\<open>item.parentId === null\<close> takes for a parent, so they are neither attached
  nor returned as roots. Here the child a is lost. (For every tree with unique ids in
  which only childless nodes have the empty id, the lemma \<open>rebuild_flatten\<close> above
  gives the round trip: the rebuilt tree is the tree with every absent children field
  written as an empty array.)
\<close>

theorem rebuild_flatten_empty_id_loses_children:
  "distinct (ids [MenuItem [] ''Top'' (Some [MenuItem ''a'' ''A'' None])])
   \<and> rebuiltTree (flattenWithParent [MenuItem [] ''Top'' (Some [MenuItem ''a'' ''A'' None])] None)
       = Some [MenuItem [] ''Top'' (Some [])]
   \<and> shells [MenuItem [] ''Top'' (Some [])]
       \<noteq> shells [MenuItem [] ''Top'' (Some [MenuItem ''a'' ''A'' None])]"
  by (simp add: rebuild_eval ids_def)

section \<open>Claims about the remove utility of the page\<close>

text \<open>
  C10. \<^verbatim>\<open>removeItemById\<close> removes the node with the given id together with its whole
  subtree: the id is gone from the result, and in a tree with unique ids the ids that
  are left are those of the tree without the ids of that subtree. It never turns a
  children array into an absent field: a node of the result without a children field
  is an unchanged node of the input, a parent whose only child was the removed node is
  in the result with an explicit empty array, and in general every node of the result
  is a node of the input whose children array, when it has one, is replaced by the
  pruned array.
\<close>

theorem removeItemById_prunes_without_collapsing:
  "tid \<notin> set (ids (removeItemById items tid))
   \<and> (p \<noteq> tid \<longrightarrow>
        removeItemById [MenuItem p l (Some [MenuItem tid l' c'])] tid = [MenuItem p l (Some [])])
   \<and> (distinct (ids items) \<longrightarrow>
        (\<forall>n \<in> set (nodes items). item_id n = tid \<longrightarrow>
           set (ids (removeItemById items tid)) = set (ids items) - set (ids [n])))
   \<and> (\<forall>n \<in> set (nodes (removeItemById items tid)). children n = None \<longrightarrow> n \<in> set (nodes items))
   \<and> (distinct (ids items) \<longrightarrow>
        (\<forall>p l k. MenuItem p l (Some [k]) \<in> set (nodes items) \<and> item_id k = tid \<longrightarrow>
           MenuItem p l (Some []) \<in> set (nodes (removeItemById items tid))))
   \<and> (\<forall>n \<in> set (nodes (removeItemById items tid)).
        \<exists>n0 \<in> set (nodes items). item_id n0 \<noteq> tid
          \<and> n = MenuItem (item_id n0) (label n0)
                  (map_option (\<lambda>cs. removeItemById cs tid) (children n0)))"
proof (intro conjI)
  show "\<forall>n \<in> set (nodes (removeItemById items tid)).
        \<exists>n0 \<in> set (nodes items). item_id n0 \<noteq> tid
          \<and> n = MenuItem (item_id n0) (label n0)
                  (map_option (\<lambda>cs. removeItemById cs tid) (children n0))"
    using removeItemById_image by blast
  show "tid \<notin> set (ids (removeItemById items tid))"
    by (rule removeItemById_removes)
  show "p \<noteq> tid \<longrightarrow>
        removeItemById [MenuItem p l (Some [MenuItem tid l' c'])] tid = [MenuItem p l (Some [])]"
    by simp
  show "distinct (ids items) \<longrightarrow>
        (\<forall>n \<in> set (nodes items). item_id n = tid \<longrightarrow>
           set (ids (removeItemById items tid)) = set (ids items) - set (ids [n]))"
    using removeItemById_ids by blast
  show "\<forall>n \<in> set (nodes (removeItemById items tid)). children n = None \<longrightarrow> n \<in> set (nodes items)"
    using removeItemById_None_kept by blast
  show "distinct (ids items) \<longrightarrow>
        (\<forall>p l k. MenuItem p l (Some [k]) \<in> set (nodes items) \<and> item_id k = tid \<longrightarrow>
           MenuItem p l (Some []) \<in> set (nodes (removeItemById items tid)))"
    using removeItemById_only_child by blast
qed

theorem removeItemById_prunes_without_collapsing_witness:
  "distinct (ids [MenuItem ''home'' ''Home'' None,
                  MenuItem ''account'' ''My Account''
                    (Some [MenuItem ''orders'' ''Order History'' (Some [MenuItem ''o1'' ''First'' None])])])
   \<and> MenuItem ''account'' ''My Account''
        (Some [MenuItem ''orders'' ''Order History'' (Some [MenuItem ''o1'' ''First'' None])])
       \<in> set (nodes [MenuItem ''home'' ''Home'' None,
                  MenuItem ''account'' ''My Account''
                    (Some [MenuItem ''orders'' ''Order History'' (Some [MenuItem ''o1'' ''First'' None])])])
   \<and> MenuItem ''account'' ''My Account'' (Some [])
       \<in> set (nodes (removeItemById
            [MenuItem ''home'' ''Home'' None,
             MenuItem ''account'' ''My Account''
               (Some [MenuItem ''orders'' ''Order History'' (Some [MenuItem ''o1'' ''First'' None])])]
            ''orders''))
   \<and> set (ids (removeItemById
            [MenuItem ''home'' ''Home'' None,
             MenuItem ''account'' ''My Account''
               (Some [MenuItem ''orders'' ''Order History'' (Some [MenuItem ''o1'' ''First'' None])])]
            ''orders'')) = {''home'', ''account''}
   \<and> MenuItem ''home'' ''Home'' None
       \<in> set (nodes (removeItemById
            [MenuItem ''home'' ''Home'' None,
             MenuItem ''account'' ''My Account''
               (Some [MenuItem ''orders'' ''Order History'' (Some [MenuItem ''o1'' ''First'' None])])]
            ''orders''))"
proof -
  let ?o = "MenuItem ''orders'' ''Order History'' (Some [MenuItem ''o1'' ''First'' None])"
  let ?T = "[MenuItem ''home'' ''Home'' None, MenuItem ''account'' ''My Account'' (Some [?o])]"
  note inst = removeItemById_prunes_without_collapsing[of "''orders''" ?T "''account''"]
  have d: "distinct (ids ?T)" by (simp add: ids_def)
  have par: "MenuItem ''account'' ''My Account'' (Some [?o]) \<in> set (nodes ?T)" by simp
  have o: "?o \<in> set (nodes ?T)" by simp
  have io: "item_id ?o = ''orders''" by simp
  have h: "MenuItem ''home'' ''Home'' None \<in> set (nodes (removeItemById ?T ''orders''))" by simp
  note ids_part = inst[THEN conjunct2, THEN conjunct2, THEN conjunct1]
  note none_part = inst[THEN conjunct2, THEN conjunct2, THEN conjunct2, THEN conjunct1]
  note only_part = inst[THEN conjunct2, THEN conjunct2, THEN conjunct2, THEN conjunct2, THEN conjunct1]
  from only_part d par io
  have p1: "MenuItem ''account'' ''My Account'' (Some []) \<in> set (nodes (removeItemById ?T ''orders''))"
    by blast
  from ids_part d o io
  have "set (ids (removeItemById ?T ''orders'')) = set (ids ?T) - set (ids [?o])"
    by blast
  also have "\<dots> = {''home'', ''account''}" by (auto simp: ids_def)
  finally have p2: "set (ids (removeItemById ?T ''orders'')) = {''home'', ''account''}" .
  from none_part h have "MenuItem ''home'' ''Home'' None \<in> set (nodes ?T)"
    by (metis MenuItem.sel(3))
  with d par p1 p2 h show ?thesis by blast
qed

end
